theory Spec2Isabelle
  imports Main "HOL-Library.Word" "HOL-Library.AList"
begin

unbundle bit_operations_syntax

section \<open>Data model of subscription.go\<close>

text \<open>
  Go's \<open>int\<close> is taken at 64 bits. An \<open>error\<close> value is either of the dynamic type
  \<open>newRequestError\<close> (the only type the code inspects, in \<open>connectToSSE\<close>) or any
  other error; both carry the text that \<open>err.Error()\<close> returns.
\<close>

type_synonym go_int = "64 word"

datatype error = newRequestError string | errorString string

fun error_text :: "error \<Rightarrow> string" where
  "error_text (newRequestError m) = m"
| "error_text (errorString m) = m"

text \<open>The verb \<open>%d\<close> of \<open>fmt\<close>: a signed decimal numeral.\<close>

fun digits10 :: "nat \<Rightarrow> string" where
  "digits10 n =
     (if n < 10 then [''0123456789'' ! n]
      else digits10 (n div 10) @ [''0123456789'' ! (n mod 10)])"

declare digits10.simps [simp del]

definition fmt_d :: "go_int \<Rightarrow> string" where
  "fmt_d w = (if sint w < 0 then ''-'' @ digits10 (nat (- sint w)) else digits10 (nat (sint w)))"

record Config =
  EventsTransport :: go_int
  CallbackURL :: string
  EventsPort :: go_int
  EventsInterface :: string

text \<open>
  \<open>EventsChannelContext\<close>: the filter mask, the cancellation channel \<open>done\<close> and the
  \<open>sync.WaitGroup\<close> \<open>completion\<close>. Channels and wait groups are heap objects; they are
  named by the number under which they were allocated.
\<close>

record EventsChannelContext =
  filter' :: go_int
  done' :: nat
  completion :: nat

record Event =
  ID :: go_int
  Name :: string
  Payload :: string

record http_Server =
  Addr :: string
  ReadTimeout :: nat
  WriteTimeout :: nat
  MaxHeaderBytes :: nat

datatype api_call = ApiGet string | ApiPost string | ApiDelete string

datatype item = EventData string | StreamError error

type_synonym stream = "item list"

text \<open>
  The goroutines that the code starts with \<open>go\<close>:
  the HTTP server loop (lines 140-144), the SSE supervision loop (lines 174-186),
  a delivery (lines 293-300) before its \<open>select\<close> and then before its deferred
  \<open>completion.Done()\<close>, and the finaliser of a removed listener (lines 84-87) before
  \<open>completion.Wait()\<close> returns and then before \<open>close(channel)\<close>.
\<close>

datatype task =
    Serve string
  | SSELoop
  | Deliver nat EventsChannelContext Event
  | Finishing EventsChannelContext
  | Closer nat nat
  | Closing nat

text \<open>
  The panics of the Go runtime that the code can meet (a send on a closed channel, the
  close of a closed channel, a wait group counter below zero) and the panics raised with
  a text, by \<open>connectToSSE\<close> itself or by \<open>http.HandleFunc\<close>.
\<close>

datatype fault = SendOnClosedChannel | CloseOfClosedChannel | NegativeWaitGroupCounter | Explicit string

text \<open>
  The client, together with the part of the Go runtime and of the outside world that
  its code acts on: the sets of closed channels, the wait-group counters, the allocator,
  the goroutines started, the calls made to Marathon's API, the patterns registered
  with \<open>http.HandleFunc\<close> on the default mux of the process, the members marked down, the lines given to \<open>debugLog\<close>, the
  seconds spent in \<open>time.After\<close>, the events taken from delivery channels, and the
  panic that stopped the process, if any.
\<close>

record marathonClient =
  config :: Config
  listeners :: "(nat \<times> EventsChannelContext) list"
  eventsHTTP :: "http_Server option"
  ipAddress :: string
  subscribedToSSE :: bool
  closedChans :: "nat set"
  closedDone :: "nat set"
  wgCount :: "nat \<Rightarrow> nat"
  nextObj :: nat
  goroutines :: "task list"
  calls :: "api_call list"
  handlers :: "string list"
  hostsDown :: "string list"
  debug :: "string list"
  slept :: nat
  received :: "(nat \<times> Event) list"
  panicked :: "fault option"

text \<open>
  What the file uses and does not define: the package's constants, and the operations of
  its collaborators (the interface lookup, the socket, the request layer, the event
  stream library, the JSON decoder and the event catalogue \<open>GetEvent\<close>), each given by
  its result.
\<close>

record env =
  EventsTransportCallback :: go_int
  EventsTransportSSE :: go_int
  defaultEventsURL :: string
  marathonAPISubscription :: string
  marathonAPIEventStream :: string
  getInterfaceAddress :: "string \<Rightarrow> error + string"
  net_Listen :: "string \<Rightarrow> error + string"
  apiGet :: "string \<Rightarrow> error + string list"
  apiPost :: "string \<Rightarrow> error option"
  apiDelete :: "string \<Rightarrow> error option"
  buildAPIRequest :: "string \<Rightarrow> string \<Rightarrow> string list \<Rightarrow> error + (string \<times> string)"
  SubscribeWith :: "string \<Rightarrow> error + stream"
  decodeEventType :: "string \<Rightarrow> error + string"
  GetEvent :: "string \<Rightarrow> error + Event"
  decodePayload :: "string \<Rightarrow> string \<Rightarrow> error + string"

text \<open>
  How a call ends: it returns a value, it returns an error, or it panics with a text.
\<close>

datatype 'a result = Ok 'a | Err error | Panic string

section \<open>The operations\<close>

text \<open>
  Modelled from the spec: \<open>debugLog\<close> is a method of the client that this file calls and
  does not define; the spec says of these failures only that they are logged. The model
  keeps the formatted line.
\<close>

definition debugLog :: "string \<Rightarrow> marathonClient \<Rightarrow> marathonClient" where
  "debugLog line r = r\<lparr>debug := debug r @ [line]\<rparr>"

definition spawn :: "task \<Rightarrow> marathonClient \<Rightarrow> marathonClient" where
  "spawn t r = r\<lparr>goroutines := goroutines r @ [t]\<rparr>"

definition Subscriptions :: "env \<Rightarrow> marathonClient \<Rightarrow> (error + string list) \<times> marathonClient" where
  "Subscriptions E r =
     (apiGet E (marathonAPISubscription E),
      r\<lparr>calls := calls r @ [ApiGet (marathonAPISubscription E)]\<rparr>)"

definition SubscriptionURL :: "env \<Rightarrow> marathonClient \<Rightarrow> string" where
  "SubscriptionURL E r =
     (if CallbackURL (config r) \<noteq> '''' then CallbackURL (config r) @ defaultEventsURL E
      else ''http://'' @ ipAddress r @ '':'' @ fmt_d (EventsPort (config r)) @ defaultEventsURL E)"

definition Subscribe :: "env \<Rightarrow> string \<Rightarrow> marathonClient \<Rightarrow> error option \<times> marathonClient" where
  "Subscribe E callback r =
     (let path = marathonAPISubscription E @ ''?callbackUrl='' @ callback
      in (apiPost E path, r\<lparr>calls := calls r @ [ApiPost path]\<rparr>))"

definition Unsubscribe :: "env \<Rightarrow> string \<Rightarrow> marathonClient \<Rightarrow> error option \<times> marathonClient" where
  "Unsubscribe E callback r =
     (let path = marathonAPISubscription E @ ''?callbackUrl='' @ callback
      in (apiDelete E path, r\<lparr>calls := calls r @ [ApiDelete path]\<rparr>))"

definition HasSubscription :: "env \<Rightarrow> string \<Rightarrow> marathonClient \<Rightarrow> (error + bool) \<times> marathonClient" where
  "HasSubscription E callback r =
     (case Subscriptions E r of
        (Inl err, r') \<Rightarrow> (Inl err, r')
      | (Inr subscriptions, r') \<Rightarrow> (Inr (callback \<in> set subscriptions), r'))"

text \<open>Lines 147-162 of \<open>registerCallbackSubscription\<close>.\<close>

definition registerCallbackURL :: "env \<Rightarrow> marathonClient \<Rightarrow> error option \<times> marathonClient" where
  "registerCallbackURL E r =
     (let callback = SubscriptionURL E r
      in case HasSubscription E callback r of
           (Inl err, r') \<Rightarrow> (Some err, r')
         | (Inr found, r') \<Rightarrow> (if \<not> found then Subscribe E callback r' else (None, r')))"

text \<open>A call that has returned an error or \<open>nil\<close>, as a result.\<close>

definition returned :: "error option \<times> marathonClient \<Rightarrow> unit result \<times> marathonClient" where
  "returned x = (case x of (None, r) \<Rightarrow> (Ok (), r) | (Some err, r) \<Rightarrow> (Err err, r))"

text \<open>
  \<open>registerCallbackSubscription\<close>. \<open>http.HandleFunc\<close> (line 124) panics when the
  pattern is already registered on the default mux.
\<close>

definition registerCallbackSubscription :: "env \<Rightarrow> marathonClient \<Rightarrow> unit result \<times> marathonClient" where
  "registerCallbackSubscription E r =
     (if eventsHTTP r = None then
        (case getInterfaceAddress E (EventsInterface (config r)) of
           Inl err \<Rightarrow>
             (Err (errorString (''Unable to get the ip address from the interface: ''
                     @ EventsInterface (config r) @ '', error: '' @ error_text err)), r)
         | Inr ip \<Rightarrow>
             (let binding = ip @ '':'' @ fmt_d (EventsPort (config r));
                  r1 = r\<lparr>ipAddress := ip\<rparr>
              in if defaultEventsURL E \<in> set (handlers r1)
                 then (Panic (''http: multiple registrations for '' @ defaultEventsURL E), r1)
                 else
                   (let r2 = r1\<lparr>handlers := handlers r1 @ [defaultEventsURL E]\<rparr>;
                        r3 = r2\<lparr>eventsHTTP := Some \<lparr>Addr = binding, ReadTimeout = 10,
                                                     WriteTimeout = 10, MaxHeaderBytes = 2 ^ 20\<rparr>\<rparr>
                    in case net_Listen E binding of
                         Inl err \<Rightarrow> (Ok (), r3)
                       | Inr listener \<Rightarrow>
                           returned (registerCallbackURL E (spawn (Serve listener) r3)))))
      else returned (registerCallbackURL E r))"

definition registerSSESubscription :: "marathonClient \<Rightarrow> error option \<times> marathonClient" where
  "registerSSESubscription r =
     (if subscribedToSSE r then (None, r)
      else (None, (spawn SSELoop r)\<lparr>subscribedToSSE := True\<rparr>))"

definition registerSubscription :: "env \<Rightarrow> marathonClient \<Rightarrow> unit result \<times> marathonClient" where
  "registerSubscription E r =
     (if EventsTransport (config r) = EventsTransportCallback E then registerCallbackSubscription E r
      else if EventsTransport (config r) = EventsTransportSSE E
      then returned (registerSSESubscription r)
      else (Err (errorString (''the events transport: '' @ fmt_d (EventsTransport (config r))
                    @ '' is not supported'')), r))"

text \<open>
  \<open>AddEventsListener\<close>: the three \<open>make\<close>/\<open>new\<close> of lines 59-63 take the next free
  number; a new channel is open and a new wait group counts zero.
\<close>

definition AddEventsListener :: "env \<Rightarrow> go_int \<Rightarrow> marathonClient \<Rightarrow> nat result \<times> marathonClient" where
  "AddEventsListener E flt r =
     (case registerSubscription E r of
        (Err err, r') \<Rightarrow> (Err err, r')
      | (Panic m, r') \<Rightarrow> (Panic m, r')
      | (Ok u, r') \<Rightarrow>
          (let channel = nextObj r';
               r1 = r'\<lparr>nextObj := Suc channel,
                       closedChans := closedChans r' - {channel},
                       closedDone := closedDone r' - {channel},
                       wgCount := (wgCount r')(channel := 0)\<rparr>
           in (Ok channel,
               r1\<lparr>listeners := AList.update channel
                     \<lparr>filter' = flt, done' = channel, completion = channel\<rparr> (listeners r1)\<rparr>)))"

definition RemoveEventsListener :: "env \<Rightarrow> nat \<Rightarrow> marathonClient \<Rightarrow> marathonClient" where
  "RemoveEventsListener E channel r =
     (case map_of (listeners r) channel of
        None \<Rightarrow> r
      | Some context \<Rightarrow>
          (if done' context \<in> closedDone r then r\<lparr>panicked := Some CloseOfClosedChannel\<rparr>
           else
             (let r1 = r\<lparr>closedDone := insert (done' context) (closedDone r)\<rparr>;
                  r2 = r1\<lparr>listeners := AList.delete channel (listeners r1)\<rparr>;
                  r3 = (if EventsTransport (config r2) = EventsTransportCallback E
                           \<and> length (listeners r2) = 0
                        then snd (Unsubscribe E (SubscriptionURL E r2) r2) else r2)
              in spawn (Closer channel (completion context)) r3)))"

text \<open>The body of the loop of \<open>handleEvent\<close> (lines 291-301) for one listener.\<close>

definition dispatch :: "Event \<Rightarrow> nat \<times> EventsChannelContext \<Rightarrow> marathonClient \<Rightarrow> marathonClient" where
  "dispatch event l r =
     (case l of (channel, context) \<Rightarrow>
        if ID event AND filter' context \<noteq> 0 then
          spawn (Deliver channel context event)
            (r\<lparr>wgCount := (wgCount r)(completion context := Suc (wgCount r (completion context)))\<rparr>)
        else r)"

definition handleEvent :: "env \<Rightarrow> string \<Rightarrow> marathonClient \<Rightarrow> error option \<times> marathonClient" where
  "handleEvent E content r =
     (case decodeEventType E content of
        Inl err \<Rightarrow>
          (Some (errorString (''failed to decode the event type, content: '' @ content
                   @ '', error: '' @ error_text err)), r)
      | Inr eventType \<Rightarrow>
          (case GetEvent E eventType of
             Inl err \<Rightarrow>
               (Some (errorString (''unable to handle event, type: '' @ eventType
                        @ '', error: '' @ error_text err)), r)
           | Inr event \<Rightarrow>
               (case decodePayload E content (Payload event) of
                  Inl err \<Rightarrow>
                    (Some (errorString (''failed to decode the event, id: '' @ fmt_d (ID event)
                             @ '', error: '' @ error_text err)), r)
                | Inr p \<Rightarrow> (None, fold (dispatch (event\<lparr>Payload := p\<rparr>)) (listeners r) r))))"

text \<open>
  \<open>connectToSSE\<close> loops until a request cannot be built or a stream is obtained; it
  need not return, so the model is a partial function and \<open>None\<close> is not returning.
\<close>

partial_function (option) connectToSSE :: "env \<Rightarrow> marathonClient \<Rightarrow> (stream result \<times> marathonClient) option" where
  "connectToSSE E r =
     (case buildAPIRequest E ''GET'' (marathonAPIEventStream E) (hostsDown r) of
        Inl err \<Rightarrow>
          (case err of
             newRequestError m \<Rightarrow>
               Some (Panic (''Requests for SSE subscriptions should never fail to be created: ''
                       @ error_text err), r)
           | errorString m \<Rightarrow> Some (Err err, r))
      | Inr (request, member) \<Rightarrow>
          (case SubscribeWith E request of
             Inl err \<Rightarrow>
               connectToSSE E
                 ((debugLog (''Error subscribing to Marathon event stream: '' @ error_text err) r)
                    \<lparr>hostsDown := hostsDown r @ [member]\<rparr>)
           | Inr stream \<Rightarrow> Some (Ok stream, r)))"

text \<open>
  \<open>listenToSSE\<close> on the items that the stream yields, in the order the \<open>select\<close> takes
  them. It returns at the first stream error; when the items run out it is still
  waiting, which is the result \<open>None\<close>.
\<close>

fun listenToSSE :: "env \<Rightarrow> stream \<Rightarrow> marathonClient \<Rightarrow> error option \<times> marathonClient" where
  "listenToSSE E [] r = (None, r)"
| "listenToSSE E (StreamError err # rest) r = (Some err, r)"
| "listenToSSE E (EventData d # rest) r =
     (case handleEvent E d r of
        (Some err, r') \<Rightarrow>
          listenToSSE E rest
            (debugLog (''listenToSSE(): failed to handle event: '' @ error_text err) r')
      | (None, r') \<Rightarrow> listenToSSE E rest r')"

text \<open>
  One turn of the supervision loop of \<open>registerSSESubscription\<close> (lines 176-184). A
  panic of \<open>connectToSSE\<close> stops the process; a stream that yields no error keeps the
  turn in \<open>listenToSSE\<close>.
\<close>

definition superviseSSE :: "env \<Rightarrow> marathonClient \<Rightarrow> marathonClient option" where
  "superviseSSE E r =
     (case connectToSSE E r of
        None \<Rightarrow> None
      | Some (Panic m, r') \<Rightarrow> Some (r'\<lparr>panicked := Some (Explicit m)\<rparr>)
      | Some (Err err, r') \<Rightarrow>
          (let r1 = debugLog (''Error connecting SSE subscription: '' @ error_text err) r'
           in Some (r1\<lparr>slept := slept r1 + 5\<rparr>))
      | Some (Ok stream, r') \<Rightarrow>
          (case listenToSSE E stream r' of
             (None, r'') \<Rightarrow> Some r''
           | (Some err, r'') \<Rightarrow>
               Some (debugLog (''Error on SSE subscription: '' @ error_text err) r'')))"

text \<open>
  \<open>handleCallbackEvent\<close>: the request is the result of \<open>ioutil.ReadAll(request.Body)\<close>;
  the response writer holds the status given to \<open>WriteHeader\<close>, if any, and the bytes
  written. \<open>net/http\<close> answers 200 when the handler returns without a status.
\<close>

record ResponseWriter =
  wroteHeader :: "nat option"
  written :: string

definition statusCode :: "ResponseWriter \<Rightarrow> nat" where
  "statusCode w = (case wroteHeader w of None \<Rightarrow> 200 | Some c \<Rightarrow> c)"

definition handleCallbackEvent ::
  "env \<Rightarrow> ResponseWriter \<Rightarrow> error + string \<Rightarrow> marathonClient \<Rightarrow> ResponseWriter \<times> marathonClient" where
  "handleCallbackEvent E writer request r =
     (case request of
        Inl err \<Rightarrow>
          (writer, debugLog (''handleCallbackEvent(): failed to read request body, error: ''
                              @ error_text err) r)
      | Inr body \<Rightarrow>
          (case handleEvent E body r of
             (Some err, r') \<Rightarrow>
               (writer, debugLog (''handleCallbackEvent(): failed to handle event: ''
                                   @ error_text err) r')
           | (None, r') \<Rightarrow> (writer, r')))"

section \<open>Goroutines and interleavings\<close>

text \<open>
  The steps of the goroutines of lines 293-300 and 84-87 on the goroutine at position
  \<open>i\<close>. A \<open>select\<close> takes the send when the subscriber receives (and a send on a closed
  channel panics), or the receive from \<open>done\<close> once \<open>done\<close> is closed;
  \<open>completion.Done()\<close> panics on a counter of zero; \<open>completion.Wait()\<close> returns
  only on a counter of zero; closing a closed channel panics. A step that cannot be
  taken is \<open>None\<close>.
\<close>

definition without :: "nat \<Rightarrow> 'a list \<Rightarrow> 'a list" where
  "without i xs = take i xs @ drop (Suc i) xs"

definition selectSend :: "nat \<Rightarrow> marathonClient \<Rightarrow> marathonClient option" where
  "selectSend i r =
     (if i < length (goroutines r) then
        (case goroutines r ! i of
           Deliver ch context e \<Rightarrow>
             if ch \<in> closedChans r
             then Some (r\<lparr>goroutines := without i (goroutines r),
                          panicked := Some SendOnClosedChannel\<rparr>)
             else Some (r\<lparr>goroutines := (goroutines r)[i := Finishing context],
                          received := received r @ [(ch, e)]\<rparr>)
         | _ \<Rightarrow> None)
      else None)"

definition selectDone :: "nat \<Rightarrow> marathonClient \<Rightarrow> marathonClient option" where
  "selectDone i r =
     (if i < length (goroutines r) then
        (case goroutines r ! i of
           Deliver ch context e \<Rightarrow>
             if done' context \<in> closedDone r
             then Some (r\<lparr>goroutines := (goroutines r)[i := Finishing context]\<rparr>)
             else None
         | _ \<Rightarrow> None)
      else None)"

definition completionDone :: "nat \<Rightarrow> marathonClient \<Rightarrow> marathonClient option" where
  "completionDone i r =
     (if i < length (goroutines r) then
        (case goroutines r ! i of
           Finishing context \<Rightarrow>
             if wgCount r (completion context) = 0
             then Some (r\<lparr>goroutines := without i (goroutines r),
                          panicked := Some NegativeWaitGroupCounter\<rparr>)
             else Some (r\<lparr>goroutines := without i (goroutines r),
                          wgCount := (wgCount r)(completion context :=
                                        wgCount r (completion context) - 1)\<rparr>)
         | _ \<Rightarrow> None)
      else None)"

definition completionWait :: "nat \<Rightarrow> marathonClient \<Rightarrow> marathonClient option" where
  "completionWait i r =
     (if i < length (goroutines r) then
        (case goroutines r ! i of
           Closer ch c \<Rightarrow>
             if wgCount r c = 0
             then Some (r\<lparr>goroutines := (goroutines r)[i := Closing ch]\<rparr>)
             else None
         | _ \<Rightarrow> None)
      else None)"

definition closeChannel :: "nat \<Rightarrow> marathonClient \<Rightarrow> marathonClient option" where
  "closeChannel i r =
     (if i < length (goroutines r) then
        (case goroutines r ! i of
           Closing ch \<Rightarrow>
             if ch \<in> closedChans r
             then Some (r\<lparr>goroutines := without i (goroutines r),
                          panicked := Some CloseOfClosedChannel\<rparr>)
             else Some (r\<lparr>goroutines := without i (goroutines r),
                          closedChans := insert ch (closedChans r)\<rparr>)
         | _ \<Rightarrow> None)
      else None)"

text \<open>
  What can happen next in the process: a call of \<open>AddEventsListener\<close> or of
  \<open>RemoveEventsListener\<close> (each whole, under the write lock), a request served by
  \<open>handleCallbackEvent\<close> while the server loop runs, a turn of the SSE supervision loop
  while it runs, one iteration of the loop of \<open>handleEvent\<close> for a listener of the
  registry (the read lock lets other goroutines run between two iterations), and a step
  of a delivery or of a finaliser. A panic that leaves \<open>AddEventsListener\<close> stops the
  process, and nothing happens after a panic.
\<close>

fun serving :: "task \<Rightarrow> bool" where
  "serving (Serve l) = True"
| "serving _ = False"

datatype action =
    Attach env go_int
  | Detach env nat
  | Request env ResponseWriter "error + string"
  | Supervise env
  | Iteration Event nat
  | SelectSend nat
  | SelectDone nat
  | CompletionDone nat
  | CompletionWait nat
  | CloseChannel nat

fun fire :: "action \<Rightarrow> marathonClient \<Rightarrow> marathonClient option" where
  "fire (Attach E flt) r =
     (case AddEventsListener E flt r of
        (Panic m, r') \<Rightarrow> Some (r'\<lparr>panicked := Some (Explicit m)\<rparr>)
      | (Err err, r') \<Rightarrow> Some r'
      | (Ok channel, r') \<Rightarrow> Some r')"
| "fire (Detach E channel) r = Some (RemoveEventsListener E channel r)"
| "fire (Request E writer request) r =
     (if list_ex serving (goroutines r)
      then Some (snd (handleCallbackEvent E writer request r)) else None)"
| "fire (Supervise E) r =
     (if SSELoop \<in> set (goroutines r) then superviseSSE E r else None)"
| "fire (Iteration event k) r =
     (if k < length (listeners r) then Some (dispatch event (listeners r ! k) r) else None)"
| "fire (SelectSend i) r = selectSend i r"
| "fire (SelectDone i) r = selectDone i r"
| "fire (CompletionDone i) r = completionDone i r"
| "fire (CompletionWait i) r = completionWait i r"
| "fire (CloseChannel i) r = closeChannel i r"

fun exec :: "action list \<Rightarrow> marathonClient \<Rightarrow> marathonClient option" where
  "exec [] r = Some r"
| "exec (a # as) r =
     (if panicked r \<noteq> None then None
      else case fire a r of None \<Rightarrow> None | Some r' \<Rightarrow> exec as r')"

text \<open>
  Modelled from the spec: the constructor of the client is not in this file; the spec has
  the registry created with the client and the transports started on the first attach.
  A client as created has nothing registered, nothing started and nothing allocated.
\<close>

definition newClient :: "Config \<Rightarrow> marathonClient" where
  "newClient cfg =
     \<lparr>config = cfg, listeners = [], eventsHTTP = None, ipAddress = [],
      subscribedToSSE = False, closedChans = {}, closedDone = {}, wgCount = (\<lambda>_. 0),
      nextObj = 0, goroutines = [], calls = [], handlers = [], hostsDown = [], debug = [],
      slept = 0, received = [], panicked = None\<rparr>"

section \<open>Derived notions\<close>

text \<open>The deliveries that \<open>handleEvent\<close> starts for an event over a registry.\<close>

definition deliveries :: "Event \<Rightarrow> (nat \<times> EventsChannelContext) list \<Rightarrow> task list" where
  "deliveries event ls =
     map (\<lambda>(channel, context). Deliver channel context event)
       (filter (\<lambda>(channel, context). ID event AND filter' context \<noteq> 0) ls)"

text \<open>The goroutines that a call started: those of the state after it beyond those before it.\<close>

definition started :: "marathonClient \<Rightarrow> marathonClient \<Rightarrow> task list" where
  "started r r' = drop (length (goroutines r)) (goroutines r')"


text \<open>A delivery in flight on a wait group, and the finaliser of a channel.\<close>

fun inflight :: "nat \<Rightarrow> task \<Rightarrow> bool" where
  "inflight c (Deliver ch context e) = (completion context = c)"
| "inflight c (Finishing context) = (completion context = c)"
| "inflight c _ = False"

fun finaliser :: "nat \<Rightarrow> task \<Rightarrow> bool" where
  "finaliser ch (Closer ch' c) = (ch' = ch)"
| "finaliser ch (Closing ch') = (ch' = ch)"
| "finaliser ch _ = False"

section \<open>Sample inputs\<close>

definition sampleConfig :: "go_int \<Rightarrow> Config" where
  "sampleConfig t =
     \<lparr>EventsTransport = t, CallbackURL = ''http://10.0.0.1:10001'', EventsPort = 10001,
      EventsInterface = ''eth0''\<rparr>"

definition sampleEnv :: env where
  "sampleEnv =
     \<lparr>EventsTransportCallback = 1, EventsTransportSSE = 2,
      defaultEventsURL = ''/event'',
      marathonAPISubscription = ''v2/eventSubscriptions'',
      marathonAPIEventStream = ''v2/events'',
      getInterfaceAddress = (\<lambda>name. Inr ''10.0.0.1''),
      net_Listen = (\<lambda>binding. Inr binding),
      apiGet = (\<lambda>path. Inr []),
      apiPost = (\<lambda>path. None),
      apiDelete = (\<lambda>path. None),
      buildAPIRequest = (\<lambda>method path down.
         if ''m1'' \<notin> set down then Inr (''m1/'' @ path, ''m1'')
         else if ''m2'' \<notin> set down then Inr (''m2/'' @ path, ''m2'')
         else Inl (errorString ''all the Marathon hosts are presently down'')),
      SubscribeWith = (\<lambda>request.
         if request = ''m2/v2/events''
         then Inr [EventData ''deployment_info'', StreamError (errorString ''EOF'')]
         else Inl (errorString ''connection refused'')),
      decodeEventType = (\<lambda>content.
         if content = [] then Inl (errorString ''EOF'') else Inr content),
      GetEvent = (\<lambda>name.
         if name = ''status_update_event'' then Inr \<lparr>ID = 2, Name = name, Payload = []\<rparr>
         else if name = ''deployment_info'' then Inr \<lparr>ID = 2048, Name = name, Payload = []\<rparr>
         else Inl (errorString (''the event type: '' @ name @ '' was not found or supported''))),
      decodePayload = (\<lambda>content target. Inr content)\<rparr>"

text \<open>The sample collaborators with a port that is already taken.\<close>

definition bindFailsEnv :: env where
  "bindFailsEnv =
     sampleEnv\<lparr>net_Listen := (\<lambda>binding. Inl (errorString ''bind: address already in use''))\<rparr>"

text \<open>The sample collaborators with a request layer that cannot build its request.\<close>

definition brokenRequestEnv :: env where
  "brokenRequestEnv =
     sampleEnv\<lparr>buildAPIRequest := (\<lambda>method path down. Inl (newRequestError ''missing protocol scheme''))\<rparr>"

text \<open>A state apart from the lines given to \<open>debugLog\<close>.\<close>

definition withoutDebug :: "marathonClient \<Rightarrow> marathonClient" where
  "withoutDebug r = r\<lparr>debug := []\<rparr>"

section \<open>Consistency of the registry, the goroutines and the heap\<close>

text \<open>
  A listener of the registry owns the cancellation channel and the wait group that were
  allocated with its channel, all three are allocated, and its channel and its
  cancellation channel are open.
\<close>

definition listener_ok :: "marathonClient \<Rightarrow> nat \<times> EventsChannelContext \<Rightarrow> bool" where
  "listener_ok r l =
     (case l of (ch, context) \<Rightarrow>
        done' context = ch \<and> completion context = ch \<and> ch < nextObj r
        \<and> ch \<notin> closedChans r \<and> ch \<notin> closedDone r)"

text \<open>
  A delivery holds the context of the channel it sends on; a finaliser belongs to a channel
  that has left the registry and is still open, and once \<open>Wait\<close> has returned the
  counter is zero.
\<close>

fun task_ok :: "marathonClient \<Rightarrow> task \<Rightarrow> bool" where
  "task_ok r (Deliver ch context e) =
     (done' context = ch \<and> completion context = ch \<and> ch < nextObj r)"
| "task_ok r (Finishing context) = (completion context < nextObj r)"
| "task_ok r (Closer ch c) =
     (c = ch \<and> ch < nextObj r \<and> ch \<notin> fst ` set (listeners r) \<and> ch \<notin> closedChans r)"
| "task_ok r (Closing ch) =
     (ch < nextObj r \<and> ch \<notin> fst ` set (listeners r) \<and> ch \<notin> closedChans r
      \<and> wgCount r ch = 0)"
| "task_ok r (Serve l) = True"
| "task_ok r SSELoop = True"

definition registry_ok :: "marathonClient \<Rightarrow> bool" where
  "registry_ok r \<longleftrightarrow>
     distinct (map fst (listeners r)) \<and> (\<forall>l \<in> set (listeners r). listener_ok r l)"

definition tasks_ok :: "marathonClient \<Rightarrow> bool" where
  "tasks_ok r \<longleftrightarrow> (\<forall>t \<in> set (goroutines r). task_ok r t)"

text \<open>Each wait group counts the deliveries in flight on it.\<close>

definition counted :: "marathonClient \<Rightarrow> bool" where
  "counted r \<longleftrightarrow> (\<forall>c. wgCount r c = length (filter (inflight c) (goroutines r)))"

definition one_finaliser :: "marathonClient \<Rightarrow> bool" where
  "one_finaliser r \<longleftrightarrow> (\<forall>ch. length (filter (finaliser ch) (goroutines r)) \<le> 1)"

text \<open>
  A closed delivery channel is out of the registry, has a counter of zero and no
  finaliser left.
\<close>

definition closed_ok :: "marathonClient \<Rightarrow> bool" where
  "closed_ok r \<longleftrightarrow>
     (\<forall>ch \<in> closedChans r.
        ch < nextObj r \<and> ch \<notin> fst ` set (listeners r) \<and> wgCount r ch = 0
        \<and> (\<forall>t \<in> set (goroutines r). \<not> finaliser ch t))"

text \<open>
  The only panics are those raised with a text, by \<open>connectToSSE\<close> itself or by
  \<open>http.HandleFunc\<close>: none comes from a channel or from a wait group.
\<close>

definition panic_ok :: "marathonClient \<Rightarrow> bool" where
  "panic_ok r \<longleftrightarrow> (\<forall>f. panicked r = Some f \<longrightarrow> (\<exists>m. f = Explicit m))"

definition consistent :: "marathonClient \<Rightarrow> bool" where
  "consistent r \<longleftrightarrow>
     registry_ok r \<and> tasks_ok r \<and> counted r \<and> one_finaliser r \<and> closed_ok r \<and> panic_ok r"

text \<open>The fields that consistency reads.\<close>

definition core ::
  "marathonClient \<Rightarrow>
     (nat \<times> EventsChannelContext) list \<times> nat set \<times> nat set \<times> (nat \<Rightarrow> nat) \<times> nat \<times> task list
       \<times> fault option" where
  "core r = (listeners r, closedChans r, closedDone r, wgCount r, nextObj r, goroutines r, panicked r)"

text \<open>The supervision loops that run.\<close>

definition supervisors :: "marathonClient \<Rightarrow> nat" where
  "supervisors r = length (filter (\<lambda>t. t = SSELoop) (goroutines r))"

text \<open>What tells whether the SSE transport was started, and how often.\<close>

definition sse :: "marathonClient \<Rightarrow> bool \<times> nat" where
  "sse r = (subscribedToSSE r, supervisors r)"

section \<open>Properties of the registry and of dispatch\<close>



lemma listeners_fold_dispatch:
  "listeners (fold (dispatch ev) ls r) = listeners r"
  by (induction ls arbitrary: r) (auto simp: dispatch_def spawn_def)

lemma Deliver_in_deliveries:
  "Deliver ch c ev \<in> set (deliveries ev' ls) \<longleftrightarrow>
     ev = ev' \<and> (ch, c) \<in> set ls \<and> ID ev AND filter' c \<noteq> 0"
  by (induction ls) (auto simp: deliveries_def)

lemma deliveries_iff:
  assumes "distinct (map fst ls)" and "map_of ls ch = Some ctx"
  shows "(\<exists>c. Deliver ch c ev \<in> set (deliveries ev ls)) \<longleftrightarrow> ID ev AND filter' ctx \<noteq> 0"
proof -
  have "(ch, c) \<in> set ls \<longleftrightarrow> c = ctx" for c
  proof -
    have "(ch, c) \<in> set ls \<longleftrightarrow> map_of ls ch = Some c"
      using assms(1) by simp
    then show ?thesis using assms(2) by auto
  qed
  then show ?thesis by (auto simp: Deliver_in_deliveries)
qed

lemma snd_returned: "snd (returned x) = snd x"
  by (simp add: returned_def split: prod.splits option.splits)

lemma fst_returned: "fst (returned x) = (case fst x of None \<Rightarrow> Ok () | Some err \<Rightarrow> Err err)"
  by (simp add: returned_def split: prod.splits option.splits)

lemma registerSubscription_listeners:
  "listeners (snd (registerSubscription E r)) = listeners r"
  by (auto simp: registerSubscription_def registerCallbackSubscription_def registerSSESubscription_def
      registerCallbackURL_def HasSubscription_def Subscriptions_def Subscribe_def spawn_def Let_def
      snd_returned split: sum.splits option.splits prod.splits)

lemma AddEventsListener_error:
  "AddEventsListener E f r = (Err err, r') \<Longrightarrow> registerSubscription E r = (Err err, r')"
  by (auto simp: AddEventsListener_def Let_def split: prod.splits result.splits)



lemma RemoveEventsListener_found:
  assumes "map_of (listeners r) channel = Some context" and "done' context \<notin> closedDone r"
  shows "RemoveEventsListener E channel r =
           spawn (Closer channel (completion context))
             ((if EventsTransport (config r) = EventsTransportCallback E
                  \<and> AList.delete channel (listeners r) = []
               then snd (Unsubscribe E (SubscriptionURL E r)
                           (r\<lparr>closedDone := insert (done' context) (closedDone r),
                              listeners := AList.delete channel (listeners r)\<rparr>))
               else r\<lparr>closedDone := insert (done' context) (closedDone r),
                      listeners := AList.delete channel (listeners r)\<rparr>))"
  using assms by (simp add: RemoveEventsListener_def Let_def SubscriptionURL_def)

lemmas sample_defs = sampleEnv_def sampleConfig_def newClient_def

lemmas attach_defs = AddEventsListener_def registerSubscription_def registerSSESubscription_def
  returned_def
  registerCallbackSubscription_def registerCallbackURL_def HasSubscription_def Subscriptions_def
  Subscribe_def SubscriptionURL_def spawn_def Let_def

lemma fmt_d_3: "fmt_d 3 = ''3''"
  by (simp add: fmt_d_def digits10.simps)

lemma dispatch_debug:
  "dispatch ev l (r\<lparr>debug := d\<rparr>) = (dispatch ev l r)\<lparr>debug := d\<rparr>"
  by (simp add: dispatch_def spawn_def split: prod.splits)

lemma fold_dispatch_debug:
  "fold (dispatch ev) ls (r\<lparr>debug := d\<rparr>) = (fold (dispatch ev) ls r)\<lparr>debug := d\<rparr>"
  by (induction ls arbitrary: r) (simp_all add: dispatch_debug)

lemma handleEvent_debug:
  "handleEvent E content (r\<lparr>debug := d\<rparr>) =
     (fst (handleEvent E content r), (snd (handleEvent E content r))\<lparr>debug := d\<rparr>)"
  by (simp add: handleEvent_def fold_dispatch_debug split: sum.splits)

lemma listenToSSE_debug:
  "fst (listenToSSE E s (r\<lparr>debug := d\<rparr>)) = fst (listenToSSE E s r)
   \<and> withoutDebug (snd (listenToSSE E s (r\<lparr>debug := d\<rparr>))) = withoutDebug (snd (listenToSSE E s r))"
proof (induction s arbitrary: r d)
  case Nil
  show ?case by (simp add: withoutDebug_def)
next
  case (Cons x s)
  show ?case
  proof (cases x)
    case (StreamError err)
    then show ?thesis by (simp add: withoutDebug_def)
  next
    case (EventData c)
    obtain e r1 where h: "handleEvent E c r = (e, r1)"
      by (cases "handleEvent E c r")
    have h': "handleEvent E c (r\<lparr>debug := d\<rparr>) = (e, r1\<lparr>debug := d\<rparr>)"
      by (simp add: handleEvent_debug h)
    show ?thesis
    proof (cases e)
      case None
      then show ?thesis
        using Cons.IH [where r = r1 and d = d] by (simp add: EventData h h')
    next
      case (Some err)
      let ?l = "''listenToSSE(): failed to handle event: '' @ error_text err"
      have "debugLog ?l (r1\<lparr>debug := d\<rparr>) = r1\<lparr>debug := d @ [?l]\<rparr>"
        and "debugLog ?l r1 = r1\<lparr>debug := debug r1 @ [?l]\<rparr>"
        by (simp_all add: debugLog_def)
      then show ?thesis
        using Cons.IH [where r = r1 and d = "d @ [?l]"] Cons.IH [where r = r1 and d = "debug r1 @ [?l]"]
        by (simp add: EventData h h' Some)
    qed
  qed
qed

lemma panicked_fold_dispatch:
  "panicked (fold (dispatch ev) ls r) = panicked r"
  by (induction ls arbitrary: r) (auto simp: dispatch_def spawn_def)

lemma panicked_handleEvent:
  "panicked (snd (handleEvent E content r)) = panicked r"
  by (simp add: handleEvent_def panicked_fold_dispatch split: sum.splits)

section \<open>Lists of goroutines\<close>

lemma update_fresh:
  "k \<notin> fst ` set al \<Longrightarrow> AList.update k v al = al @ [(k, v)]"
  by (induction al) auto

section \<open>What the operations change of the core\<close>

lemma task_ok_core: "core r = core r' \<Longrightarrow> task_ok r t = task_ok r' t"
  by (cases t) (simp_all add: core_def)

lemma consistent_core: "core r = core r' \<Longrightarrow> consistent r = consistent r'"
proof -
  assume c: "core r = core r'"
  have t: "tasks_ok r = tasks_ok r'"
    using c task_ok_core [OF c] by (simp add: tasks_ok_def core_def)
  have "registry_ok r = registry_ok r'" "counted r = counted r'"
    "one_finaliser r = one_finaliser r'" "closed_ok r = closed_ok r'" "panic_ok r = panic_ok r'"
    using c by (simp_all add: core_def registry_ok_def counted_def one_finaliser_def
        closed_ok_def panic_ok_def listener_ok_def)
  then show ?thesis
    using t by (simp add: consistent_def)
qed

lemmas consistent_defs = registry_ok_def tasks_ok_def counted_def one_finaliser_def
  closed_ok_def panic_ok_def listener_ok_def

lemma consistentI:
  "registry_ok r \<Longrightarrow> tasks_ok r \<Longrightarrow> counted r \<Longrightarrow> one_finaliser r \<Longrightarrow> closed_ok r
   \<Longrightarrow> panic_ok r \<Longrightarrow> consistent r"
  by (simp add: consistent_def)

text \<open>A goroutine that is neither a delivery nor a finaliser.\<close>

lemma consistent_spawn_neutral:
  assumes "consistent r" and "t = SSELoop \<or> (\<exists>l. t = Serve l)"
  shows "consistent (spawn t r)"
proof (rule consistentI)
  have i: "\<not> inflight c t" and f: "\<not> finaliser ch t" for c ch
    using assms(2) by auto
  have k: "task_ok r' t" for r'
    using assms(2) by auto
  have o: "task_ok (spawn t r) u = task_ok r u" for u
    by (cases u) (simp_all add: spawn_def)
  show "registry_ok (spawn t r)"
    using assms(1) by (simp add: consistent_def registry_ok_def listener_ok_def spawn_def)
  show "tasks_ok (spawn t r)"
    using assms(1) k o by (auto simp: consistent_def tasks_ok_def spawn_def)
  show "counted (spawn t r)"
    using assms(1) i by (simp add: consistent_def counted_def spawn_def)
  show "one_finaliser (spawn t r)"
    using assms(1) f by (simp add: consistent_def one_finaliser_def spawn_def)
  show "closed_ok (spawn t r)"
    using assms(1) f by (simp add: consistent_def closed_ok_def spawn_def)
  show "panic_ok (spawn t r)"
    using assms(1) by (simp add: consistent_def panic_ok_def spawn_def)
qed

lemma registerCallbackURL_core:
  "core (snd (registerCallbackURL E r)) = core r"
  by (simp add: registerCallbackURL_def HasSubscription_def Subscriptions_def Subscribe_def
      core_def Let_def split: sum.splits prod.splits)

lemma consistent_registerSubscription:
  assumes "consistent r"
  shows "consistent (snd (registerSubscription E r))"
proof -
  have cb: "consistent (snd (registerCallbackSubscription E r))"
  proof (cases "eventsHTTP r = None")
    case False
    then show ?thesis
      using assms consistent_core [OF registerCallbackURL_core [of E r]]
      by (auto simp: registerCallbackSubscription_def snd_returned)
  next
    case True
    show ?thesis
    proof (cases "getInterfaceAddress E (EventsInterface (config r))")
      case (Inl err)
      then show ?thesis using assms True by (simp add: registerCallbackSubscription_def)
    next
      case (Inr ip)
      let ?b = "ip @ '':'' @ fmt_d (EventsPort (config r))"
      let ?r1 = "r\<lparr>ipAddress := ip\<rparr>"
      let ?r3 = "r\<lparr>ipAddress := ip, handlers := handlers r @ [defaultEventsURL E],
                   eventsHTTP := Some \<lparr>Addr = ?b, ReadTimeout = 10,
                                               WriteTimeout = 10, MaxHeaderBytes = 2 ^ 20\<rparr>\<rparr>"
      have c1: "consistent ?r1"
        using assms consistent_core [of ?r1 r] by (simp add: core_def)
      have c3: "consistent ?r3"
        using assms consistent_core [of ?r3 r] by (simp add: core_def)
      show ?thesis
      proof (cases "defaultEventsURL E \<in> set (handlers r)")
        case registered: True
        then show ?thesis
          using c1 True Inr by (simp add: registerCallbackSubscription_def Let_def)
      next
        case fresh: False
        show ?thesis
        proof (cases "net_Listen E ?b")
          case (Inl err)
          then show ?thesis
            using c3 True Inr fresh by (simp add: registerCallbackSubscription_def Let_def)
        next
          case (Inr listener)
          have "consistent (spawn (Serve listener) ?r3)"
            using c3 by (rule consistent_spawn_neutral) simp
          then have "consistent (snd (registerCallbackURL E (spawn (Serve listener) ?r3)))"
            using consistent_core [OF registerCallbackURL_core [of E "spawn (Serve listener) ?r3"]]
            by simp
          then show ?thesis
            using True \<open>getInterfaceAddress E (EventsInterface (config r)) = Inr ip\<close> Inr fresh
            by (simp add: registerCallbackSubscription_def Let_def snd_returned)
        qed
      qed
    qed
  qed
  have sse: "consistent (snd (registerSSESubscription r))"
  proof (cases "subscribedToSSE r")
    case True
    then show ?thesis using assms by (simp add: registerSSESubscription_def)
  next
    case False
    have "consistent (spawn SSELoop r)"
      using assms by (rule consistent_spawn_neutral) simp
    then have "consistent ((spawn SSELoop r)\<lparr>subscribedToSSE := True\<rparr>)"
      using consistent_core [of "(spawn SSELoop r)\<lparr>subscribedToSSE := True\<rparr>" "spawn SSELoop r"]
      by (simp add: core_def)
    then show ?thesis using False by (simp add: registerSSESubscription_def)
  qed
  show ?thesis
    using cb sse assms by (simp add: registerSubscription_def snd_returned)
qed

lemma consistentD:
  assumes "consistent r"
  shows "registry_ok r" "tasks_ok r" "counted r" "one_finaliser r" "closed_ok r" "panic_ok r"
  using assms by (simp_all add: consistent_def)

lemma keys_allocated:
  "registry_ok r \<Longrightarrow> ch \<in> fst ` set (listeners r) \<Longrightarrow> ch < nextObj r"
  by (auto simp: registry_ok_def listener_ok_def)

lemma tasks_okD: "tasks_ok r \<Longrightarrow> t \<in> set (goroutines r) \<Longrightarrow> task_ok r t"
  by (simp add: tasks_ok_def)

lemma inflight_allocated:
  "tasks_ok r \<Longrightarrow> t \<in> set (goroutines r) \<Longrightarrow> inflight c t \<Longrightarrow> c < nextObj r"
  using tasks_okD [of r t] by (cases t) auto

lemma finaliser_not_listening:
  "tasks_ok r \<Longrightarrow> t \<in> set (goroutines r) \<Longrightarrow> finaliser ch t \<Longrightarrow>
     ch \<notin> fst ` set (listeners r) \<and> ch \<notin> closedChans r \<and> ch < nextObj r"
  using tasks_okD [of r t] by (cases t) auto

text \<open>The allocation and registration of lines 59-64.\<close>

lemma consistent_allocate:
  assumes "consistent r"
  shows "consistent
           (r\<lparr>nextObj := Suc (nextObj r),
              closedChans := closedChans r - {nextObj r},
              closedDone := closedDone r - {nextObj r},
              wgCount := (wgCount r)(nextObj r := 0),
              listeners := AList.update (nextObj r)
                 \<lparr>filter' = f, done' = nextObj r, completion = nextObj r\<rparr> (listeners r)\<rparr>)"
    (is "consistent ?r'")
proof (rule consistentI)
  note c = consistentD [OF assms]
  let ?n = "nextObj r"
  have fresh: "?n \<notin> fst ` set (listeners r)"
    using keys_allocated [OF c(1), of ?n] by auto
  have ls: "AList.update ?n \<lparr>filter' = f, done' = ?n, completion = ?n\<rparr> (listeners r)
              = listeners r @ [(?n, \<lparr>filter' = f, done' = ?n, completion = ?n\<rparr>)]"
    using fresh by (rule update_fresh)
  have ncl: "?n \<notin> closedChans r"
    using c(5) by (auto simp: closed_ok_def)
  then have cl: "closedChans r - {?n} = closedChans r"
    by simp
  have "filter (inflight ?n) (goroutines r) = []"
    using inflight_allocated [OF c(2), of _ ?n] by (auto simp: filter_empty_conv)
  then have "wgCount r ?n = 0"
    using c(3) by (simp add: counted_def)
  then have wg: "(wgCount r)(?n := 0) = wgCount r"
    by auto
  show "registry_ok ?r'"
    using c(1) fresh ncl unfolding registry_ok_def
    by (auto simp: ls listener_ok_def cl less_Suc_eq)
  have "task_ok ?r' t" if "t \<in> set (goroutines r)" for t
    using c(2) that finaliser_not_listening [OF c(2) that] unfolding tasks_ok_def
    by (cases t) (auto simp: ls cl wg)
  then show "tasks_ok ?r'"
    by (simp add: tasks_ok_def)
  show "counted ?r'"
    using c(3) by (simp add: counted_def wg)
  show "one_finaliser ?r'"
    using c(4) by (simp add: one_finaliser_def)
  show "closed_ok ?r'"
    using c(5) unfolding closed_ok_def by (auto simp: ls cl wg)
  show "panic_ok ?r'"
    using c(6) by (simp add: panic_ok_def)
qed

lemma consistent_AddEventsListener:
  assumes "consistent r"
  shows "consistent (snd (AddEventsListener E f r))"
proof -
  obtain x r1 where reg: "registerSubscription E r = (x, r1)"
    by (cases "registerSubscription E r")
  have c1: "consistent r1"
    using consistent_registerSubscription [OF assms, of E] by (simp add: reg)
  show ?thesis
  proof (cases x)
    case (Ok u)
    then show ?thesis
      using consistent_allocate [OF c1, of f] by (simp add: AddEventsListener_def reg Let_def)
  next
    case (Err err)
    then show ?thesis using c1 by (simp add: AddEventsListener_def reg)
  next
    case (Panic m)
    then show ?thesis using c1 by (simp add: AddEventsListener_def reg)
  qed
qed

lemma registry_okD:
  "registry_ok r \<Longrightarrow> (ch, context) \<in> set (listeners r) \<Longrightarrow>
     done' context = ch \<and> completion context = ch \<and> ch < nextObj r
     \<and> ch \<notin> closedChans r \<and> ch \<notin> closedDone r"
  by (auto simp: registry_ok_def listener_ok_def)

lemma no_finaliser_of_listener:
  assumes "tasks_ok r" and "ch \<in> fst ` set (listeners r)"
  shows "filter (finaliser ch) (goroutines r) = []"
  using finaliser_not_listening [OF assms(1)] assms(2) by (auto simp: filter_empty_conv)

text \<open>The removal of a registered listener (lines 75-87).\<close>

lemma consistent_remove:
  assumes "consistent r" and "(ch, context) \<in> set (listeners r)"
  shows "consistent
           (r\<lparr>closedDone := insert (done' context) (closedDone r),
              listeners := AList.delete ch (listeners r),
              goroutines := goroutines r @ [Closer ch (completion context)]\<rparr>)"
    (is "consistent ?r'")
proof (rule consistentI)
  note c = consistentD [OF assms(1)]
  note l = registry_okD [OF c(1) assms(2)]
  have key: "ch \<in> fst ` set (listeners r)"
    using assms(2) by force
  have sub: "set (AList.delete ch (listeners r)) \<subseteq> set (listeners r)"
    by (auto simp: AList.delete_eq)
  have gone: "ch \<notin> fst ` set (AList.delete ch (listeners r))"
    by (auto simp: AList.delete_eq)
  have keys: "fst ` set (AList.delete ch (listeners r)) \<subseteq> fst ` set (listeners r)"
    using sub by auto
  have nof: "filter (finaliser ch) (goroutines r) = []"
    using c(2) key by (rule no_finaliser_of_listener)
  have del: "x \<in> set (listeners r) \<and> fst x \<noteq> ch" if "x \<in> set (AList.delete ch (listeners r))" for x
    using that by (auto simp: AList.delete_eq)
  show "registry_ok ?r'"
    unfolding registry_ok_def
  proof (intro conjI ballI)
    show "distinct (map fst (listeners ?r'))"
      using c(1) by (simp add: registry_ok_def distinct_delete)
    fix x
    assume "x \<in> set (listeners ?r')"
    then have x: "x \<in> set (listeners r)" "fst x \<noteq> ch"
      using del by simp_all
    then have "listener_ok r x"
      using c(1) by (simp add: registry_ok_def)
    then show "listener_ok ?r' x"
      using x(2) l by (cases x) (auto simp: listener_ok_def)
  qed
  have "task_ok ?r' t" if "t \<in> set (goroutines r)" for t
    using tasks_okD [OF c(2) that] keys by (cases t) auto
  moreover have "task_ok ?r' (Closer ch (completion context))"
    using l gone by simp
  ultimately show "tasks_ok ?r'"
    by (auto simp: tasks_ok_def)
  show "counted ?r'"
    using c(3) by (simp add: counted_def)
  show "one_finaliser ?r'"
    unfolding one_finaliser_def
  proof
    fix k
    show "length (filter (finaliser k) (goroutines ?r')) \<le> 1"
      using c(4) nof by (cases "k = ch") (simp_all add: one_finaliser_def)
  qed
  show "closed_ok ?r'"
    unfolding closed_ok_def
  proof (intro ballI)
    fix k
    assume "k \<in> closedChans ?r'"
    then have k: "k \<in> closedChans r"
      by simp
    have a: "k < nextObj r" "k \<notin> fst ` set (listeners r)" "wgCount r k = 0"
      "\<forall>t \<in> set (goroutines r). \<not> finaliser k t"
      using c(5) k by (simp_all add: closed_ok_def)
    have "k \<noteq> ch"
      using k l by auto
    then show "k < nextObj ?r' \<and> k \<notin> fst ` set (listeners ?r') \<and> wgCount ?r' k = 0
        \<and> (\<forall>t \<in> set (goroutines ?r'). \<not> finaliser k t)"
      using a keys by auto
  qed
  show "panic_ok ?r'"
    using c(6) by (simp add: panic_ok_def)
qed

lemma consistent_RemoveEventsListener:
  assumes "consistent r"
  shows "consistent (RemoveEventsListener E ch r)"
proof (cases "map_of (listeners r) ch")
  case None
  then show ?thesis using assms by (simp add: RemoveEventsListener_def)
next
  case (Some ctx)
  then have mem: "(ch, ctx) \<in> set (listeners r)"
    by (rule map_of_SomeD)
  note l = registry_okD [OF consistentD(1) [OF assms] mem]
  let ?r' = "r\<lparr>closedDone := insert (done' ctx) (closedDone r),
              listeners := AList.delete ch (listeners r),
              goroutines := goroutines r @ [Closer ch (completion ctx)]\<rparr>"
  have "core (RemoveEventsListener E ch r) = core ?r'"
    using Some l by (simp add: RemoveEventsListener_def Let_def spawn_def Unsubscribe_def core_def)
  then show ?thesis
    using consistent_remove [OF assms mem] consistent_core by blast
qed

text \<open>One iteration of the loop of \<open>handleEvent\<close>, and the whole loop.\<close>

lemma consistent_dispatch:
  assumes "consistent r" and "l \<in> set (listeners r)"
  shows "consistent (dispatch ev l r)"
proof -
  obtain ch ctx where l: "l = (ch, ctx)"
    by (cases l)
  show ?thesis
  proof (cases "ID ev AND filter' ctx \<noteq> 0")
  case False
  then show ?thesis using assms(1) by (simp add: dispatch_def l)
next
  case True
  note c = consistentD [OF assms(1)]
  have mem: "(ch, ctx) \<in> set (listeners r)"
    using assms(2) l by simp
  note k = registry_okD [OF c(1) mem]
  have key: "ch \<in> fst ` set (listeners r)"
    using mem by force
  let ?r' = "r\<lparr>wgCount := (wgCount r)(ch := Suc (wgCount r ch)),
               goroutines := goroutines r @ [Deliver ch ctx ev]\<rparr>"
  have d: "dispatch ev l r = ?r'"
    using True l k by (simp add: dispatch_def spawn_def)
  have "consistent ?r'"
  proof (rule consistentI)
    show "registry_ok ?r'"
      using c(1) by (simp add: registry_ok_def listener_ok_def)
    have "task_ok ?r' t" if "t \<in> set (goroutines r)" for t
      using tasks_okD [OF c(2) that] key by (cases t) auto
    moreover have "task_ok ?r' (Deliver ch ctx ev)"
      using k by simp
    ultimately show "tasks_ok ?r'"
      by (auto simp: tasks_ok_def)
    show "counted ?r'"
      using c(3) k by (simp add: counted_def)
    show "one_finaliser ?r'"
      using c(4) by (simp add: one_finaliser_def)
    show "closed_ok ?r'"
      using c(5) key unfolding closed_ok_def by auto
    show "panic_ok ?r'"
      using c(6) by (simp add: panic_ok_def)
  qed
  then show ?thesis by (simp add: d)
qed
qed

lemma listeners_dispatch: "listeners (dispatch ev l r) = listeners r"
  by (simp add: dispatch_def spawn_def split: prod.splits)

lemma consistent_fold_dispatch:
  "consistent r \<Longrightarrow> set ls \<subseteq> set (listeners r) \<Longrightarrow> consistent (fold (dispatch ev) ls r)"
proof (induction ls arbitrary: r)
  case Nil
  then show ?case by simp
next
  case (Cons l ls)
  have "consistent (dispatch ev l r)"
    using Cons.prems by (intro consistent_dispatch) auto
  moreover have "set ls \<subseteq> set (listeners (dispatch ev l r))"
    using Cons.prems by (simp add: listeners_dispatch)
  ultimately show ?case
    using Cons.IH by simp
qed

lemma consistent_handleEvent:
  "consistent r \<Longrightarrow> consistent (snd (handleEvent E content r))"
  by (simp add: handleEvent_def consistent_fold_dispatch split: sum.splits)

lemma consistent_debugLog: "consistent (debugLog line r) = consistent r"
  by (rule consistent_core) (simp add: core_def debugLog_def)

lemma consistent_handleCallbackEvent:
  assumes "consistent r"
  shows "consistent (snd (handleCallbackEvent E w request r))"
proof (cases request)
  case (Inl err)
  then show ?thesis using assms by (simp add: handleCallbackEvent_def consistent_debugLog)
next
  case (Inr body)
  obtain x r1 where h: "handleEvent E body r = (x, r1)"
    by (cases "handleEvent E body r")
  have "consistent r1"
    using consistent_handleEvent [OF assms, of E body] by (simp add: h)
  then show ?thesis
    by (simp add: handleCallbackEvent_def Inr h consistent_debugLog split: option.splits)
qed

lemma consistent_listenToSSE:
  "consistent r \<Longrightarrow> consistent (snd (listenToSSE E s r))"
proof (induction s arbitrary: r)
  case Nil
  then show ?case by simp
next
  case (Cons x s)
  show ?case
  proof (cases x)
    case (StreamError err)
    then show ?thesis using Cons.prems by simp
  next
    case (EventData d)
    obtain y r1 where h: "handleEvent E d r = (y, r1)"
      by (cases "handleEvent E d r")
    have "consistent r1"
      using consistent_handleEvent [OF Cons.prems, of E d] by (simp add: h)
    then show ?thesis
      using Cons.IH by (simp add: EventData h consistent_debugLog split: option.splits)
  qed
qed

section \<open>Steps of the goroutines\<close>

lemma nth_split:
  "i < length xs \<Longrightarrow> xs = take i xs @ xs ! i # drop (Suc i) xs"
  by (rule id_take_nth_drop)

lemma update_split:
  "i < length xs \<Longrightarrow> xs[i := y] = take i xs @ y # drop (Suc i) xs"
  by (rule upd_conv_take_nth_drop)

text \<open>A delivery in the pool keeps its channel open: the counter of a closed channel is zero.\<close>

lemma delivery_channel_open:
  assumes "consistent r" and "Deliver ch ctx e \<in> set (goroutines r)"
  shows "ch \<notin> closedChans r"
proof
  assume closed: "ch \<in> closedChans r"
  note c = consistentD [OF assms(1)]
  have ok: "completion ctx = ch"
    using tasks_okD [OF c(2) assms(2)] by simp
  have "wgCount r ch = 0"
    using c(5) closed by (simp add: closed_ok_def)
  then have "filter (inflight ch) (goroutines r) = []"
    using c(3) by (simp add: counted_def)
  then show False
    using assms(2) ok by (auto simp: filter_empty_conv)
qed

lemma finishing_counted:
  assumes "consistent r" and "Finishing ctx \<in> set (goroutines r)"
  shows "wgCount r (completion ctx) \<noteq> 0"
proof
  assume "wgCount r (completion ctx) = 0"
  then have "filter (inflight (completion ctx)) (goroutines r) = []"
    using consistentD(3) [OF assms(1)] by (simp add: counted_def)
  then show False
    using assms(2) by (auto simp: filter_empty_conv)
qed

lemma consistent_select:
  assumes "consistent r" and "goroutines r = pre @ Deliver ch ctx e # post"
  shows "consistent (r\<lparr>goroutines := pre @ Finishing ctx # post\<rparr>)" (is "consistent ?r'")
proof (rule consistentI)
  note c = consistentD [OF assms(1)]
  have d: "task_ok r (Deliver ch ctx e)"
    using c(2) by (simp add: tasks_ok_def assms(2))
  have o: "task_ok ?r' t = task_ok r t" for t
    by (cases t) simp_all
  show "registry_ok ?r'"
    using c(1) by (simp add: registry_ok_def listener_ok_def)
  show "tasks_ok ?r'"
    using c(2) d by (auto simp: tasks_ok_def assms(2) o)
  show "counted ?r'"
    using c(3) by (simp add: counted_def assms(2))
  show "one_finaliser ?r'"
    using c(4) by (simp add: one_finaliser_def assms(2))
  show "closed_ok ?r'"
    using c(5) by (simp add: closed_ok_def assms(2))
  show "panic_ok ?r'"
    using c(6) by (simp add: panic_ok_def)
qed

lemma consistent_done:
  assumes "consistent r" and "goroutines r = pre @ Finishing ctx # post"
  shows "consistent
           (r\<lparr>goroutines := pre @ post,
              wgCount := (wgCount r)(completion ctx := wgCount r (completion ctx) - 1)\<rparr>)"
    (is "consistent ?r'")
proof (rule consistentI)
  note c = consistentD [OF assms(1)]
  show "registry_ok ?r'"
    using c(1) by (simp add: registry_ok_def listener_ok_def)
  have "task_ok ?r' t" if "t \<in> set (goroutines r)" for t
    using tasks_okD [OF c(2) that] by (cases t) auto
  then show "tasks_ok ?r'"
    by (auto simp: tasks_ok_def assms(2))
  show "counted ?r'"
    using c(3) by (simp add: counted_def assms(2))
  show "one_finaliser ?r'"
    using c(4) by (simp add: one_finaliser_def assms(2))
  show "closed_ok ?r'"
    using c(5) by (simp add: closed_ok_def assms(2))
  show "panic_ok ?r'"
    using c(6) by (simp add: panic_ok_def)
qed

lemma consistent_wait:
  assumes "consistent r" and "goroutines r = pre @ Closer ch c # post" and "wgCount r c = 0"
  shows "consistent (r\<lparr>goroutines := pre @ Closing ch # post\<rparr>)" (is "consistent ?r'")
proof (rule consistentI)
  note c = consistentD [OF assms(1)]
  have d: "task_ok r (Closer ch c)"
    using c(2) by (simp add: tasks_ok_def assms(2))
  have o: "task_ok ?r' t = task_ok r t" for t
    by (cases t) simp_all
  show "registry_ok ?r'"
    using c(1) by (simp add: registry_ok_def listener_ok_def)
  show "tasks_ok ?r'"
    using c(2) d assms(3) by (auto simp: tasks_ok_def assms(2) o)
  show "counted ?r'"
    using c(3) by (simp add: counted_def assms(2))
  show "one_finaliser ?r'"
    unfolding one_finaliser_def
  proof
    fix k
    have "length (filter (finaliser k) (pre @ Closing ch # post))
            = length (filter (finaliser k) (pre @ Closer ch c # post))"
      by simp
    moreover have "length (filter (finaliser k) (pre @ Closer ch c # post)) \<le> 1"
      using c(4) [unfolded one_finaliser_def assms(2)] by (rule spec)
    moreover have "goroutines ?r' = pre @ Closing ch # post"
      by simp
    ultimately show "length (filter (finaliser k) (goroutines ?r')) \<le> 1"
      by (simp only:)
  qed
  show "closed_ok ?r'"
    using c(5) by (simp add: closed_ok_def assms(2))
  show "panic_ok ?r'"
    using c(6) by (simp add: panic_ok_def)
qed

lemma consistent_close:
  assumes "consistent r" and "goroutines r = pre @ Closing ch # post"
  shows "consistent (r\<lparr>goroutines := pre @ post, closedChans := insert ch (closedChans r)\<rparr>)"
    (is "consistent ?r'")
proof (rule consistentI)
  note c = consistentD [OF assms(1)]
  have d: "ch < nextObj r" "ch \<notin> fst ` set (listeners r)" "ch \<notin> closedChans r" "wgCount r ch = 0"
    using c(2) by (simp_all add: tasks_ok_def assms(2))
  have "length (filter (finaliser ch) (goroutines r)) \<le> 1"
    using c(4) by (simp add: one_finaliser_def)
  then have only: "filter (finaliser ch) pre = []" "filter (finaliser ch) post = []"
    by (simp_all add: assms(2))
  have rest: "\<not> finaliser ch t" if "t \<in> set pre \<union> set post" for t
    using only that by (auto simp: filter_empty_conv)
  show "registry_ok ?r'"
    using c(1) d(2) unfolding registry_ok_def by (force simp: listener_ok_def)
  have "task_ok ?r' t" if "t \<in> set pre \<union> set post" for t
  proof -
    have "t \<in> set (goroutines r)"
      using that by (auto simp: assms(2))
    then have "task_ok r t"
      by (rule tasks_okD [OF c(2)])
    then show ?thesis
      using rest [OF that] by (cases t) auto
  qed
  then show "tasks_ok ?r'"
    by (auto simp: tasks_ok_def)
  show "counted ?r'"
    using c(3) by (simp add: counted_def assms(2))
  show "one_finaliser ?r'"
    unfolding one_finaliser_def
  proof
    fix k
    have "length (filter (finaliser k) (pre @ post))
            \<le> length (filter (finaliser k) (pre @ Closing ch # post))"
      by simp
    moreover have "length (filter (finaliser k) (pre @ Closing ch # post)) \<le> 1"
      using c(4) [unfolded one_finaliser_def assms(2)] by (rule spec)
    ultimately have "length (filter (finaliser k) (pre @ post)) \<le> 1"
      by (rule le_trans)
    moreover have "goroutines ?r' = pre @ post"
      by simp
    ultimately show "length (filter (finaliser k) (goroutines ?r')) \<le> 1"
      by (simp only:)
  qed
  show "closed_ok ?r'"
    using c(5) d rest unfolding closed_ok_def by (auto simp: assms(2))
  show "panic_ok ?r'"
    using c(6) by (simp add: panic_ok_def)
qed

lemma consistent_panic: "consistent r \<Longrightarrow> consistent (r\<lparr>panicked := Some (Explicit m)\<rparr>)"
proof -
  assume a: "consistent r"
  note c = consistentD [OF a]
  let ?r' = "r\<lparr>panicked := Some (Explicit m)\<rparr>"
  have o: "task_ok ?r' t = task_ok r t" for t
    by (cases t) simp_all
  show "consistent ?r'"
    using c o by (intro consistentI) (simp_all add: consistent_defs)
qed

lemma consistent_selectSend:
  assumes "consistent r" and "selectSend i r = Some r'"
  shows "consistent r'"
proof -
  have i: "i < length (goroutines r)"
    using assms(2) by (simp add: selectSend_def split: if_splits)
  then obtain ch ctx e where t: "goroutines r ! i = Deliver ch ctx e"
    using assms(2) by (cases "goroutines r ! i") (simp_all add: selectSend_def)
  let ?pre = "take i (goroutines r)" and ?post = "drop (Suc i) (goroutines r)"
  have g: "goroutines r = ?pre @ Deliver ch ctx e # ?post"
    using nth_split [OF i] t by simp
  have "Deliver ch ctx e \<in> set (goroutines r)"
    using i t nth_mem by fastforce
  then have "ch \<notin> closedChans r"
    using assms(1) delivery_channel_open by blast
  then have r': "r' = r\<lparr>goroutines := (goroutines r)[i := Finishing ctx],
                         received := received r @ [(ch, e)]\<rparr>"
    using assms(2) i t by (simp add: selectSend_def)
  have "core r' = core (r\<lparr>goroutines := ?pre @ Finishing ctx # ?post\<rparr>)"
    by (simp add: r' core_def update_split [OF i])
  then show ?thesis
    using consistent_select [OF assms(1) g] consistent_core by blast
qed

lemma consistent_selectDone:
  assumes "consistent r" and "selectDone i r = Some r'"
  shows "consistent r'"
proof -
  have i: "i < length (goroutines r)"
    using assms(2) by (simp add: selectDone_def split: if_splits)
  then obtain ch ctx e where t: "goroutines r ! i = Deliver ch ctx e"
    using assms(2) by (cases "goroutines r ! i") (simp_all add: selectDone_def)
  let ?pre = "take i (goroutines r)" and ?post = "drop (Suc i) (goroutines r)"
  have g: "goroutines r = ?pre @ Deliver ch ctx e # ?post"
    using nth_split [OF i] t by simp
  have r': "r' = r\<lparr>goroutines := (goroutines r)[i := Finishing ctx]\<rparr>"
    using assms(2) i t by (simp add: selectDone_def split: if_splits)
  have "r' = r\<lparr>goroutines := ?pre @ Finishing ctx # ?post\<rparr>"
    by (simp add: r' update_split [OF i])
  then show ?thesis
    using consistent_select [OF assms(1) g] by simp
qed

lemma consistent_completionDone:
  assumes "consistent r" and "completionDone i r = Some r'"
  shows "consistent r'"
proof -
  have i: "i < length (goroutines r)"
    using assms(2) by (simp add: completionDone_def split: if_splits)
  then obtain ctx where t: "goroutines r ! i = Finishing ctx"
    using assms(2) by (cases "goroutines r ! i") (simp_all add: completionDone_def)
  let ?pre = "take i (goroutines r)" and ?post = "drop (Suc i) (goroutines r)"
  have g: "goroutines r = ?pre @ Finishing ctx # ?post"
    using nth_split [OF i] t by simp
  have "Finishing ctx \<in> set (goroutines r)"
    using i t nth_mem by fastforce
  then have "wgCount r (completion ctx) \<noteq> 0"
    using assms(1) finishing_counted by blast
  then have r': "r' = r\<lparr>goroutines := without i (goroutines r),
       wgCount := (wgCount r)(completion ctx := wgCount r (completion ctx) - 1)\<rparr>"
    using assms(2) i t by (simp add: completionDone_def)
  have "r' = r\<lparr>goroutines := ?pre @ ?post,
       wgCount := (wgCount r)(completion ctx := wgCount r (completion ctx) - 1)\<rparr>"
    by (simp add: r' without_def)
  then show ?thesis
    using consistent_done [OF assms(1) g] by simp
qed

lemma consistent_completionWait:
  assumes "consistent r" and "completionWait i r = Some r'"
  shows "consistent r'"
proof -
  have i: "i < length (goroutines r)"
    using assms(2) by (simp add: completionWait_def split: if_splits)
  then obtain ch c where t: "goroutines r ! i = Closer ch c"
    using assms(2) by (cases "goroutines r ! i") (simp_all add: completionWait_def)
  let ?pre = "take i (goroutines r)" and ?post = "drop (Suc i) (goroutines r)"
  have g: "goroutines r = ?pre @ Closer ch c # ?post"
    using nth_split [OF i] t by simp
  have z: "wgCount r c = 0" and r': "r' = r\<lparr>goroutines := (goroutines r)[i := Closing ch]\<rparr>"
    using assms(2) i t by (simp_all add: completionWait_def split: if_splits)
  have "r' = r\<lparr>goroutines := ?pre @ Closing ch # ?post\<rparr>"
    by (simp add: r' update_split [OF i])
  then show ?thesis
    using consistent_wait [OF assms(1) g z] by simp
qed

lemma consistent_closeChannel:
  assumes "consistent r" and "closeChannel i r = Some r'"
  shows "consistent r'"
proof -
  have i: "i < length (goroutines r)"
    using assms(2) by (simp add: closeChannel_def split: if_splits)
  then obtain ch where t: "goroutines r ! i = Closing ch"
    using assms(2) by (cases "goroutines r ! i") (simp_all add: closeChannel_def)
  let ?pre = "take i (goroutines r)" and ?post = "drop (Suc i) (goroutines r)"
  have g: "goroutines r = ?pre @ Closing ch # ?post"
    using nth_split [OF i] t by simp
  have "Closing ch \<in> set (goroutines r)"
    using i t nth_mem by fastforce
  then have "task_ok r (Closing ch)"
    by (rule tasks_okD [OF consistentD(2) [OF assms(1)]])
  then have "ch \<notin> closedChans r"
    by simp
  then have r': "r' = r\<lparr>goroutines := without i (goroutines r),
       closedChans := insert ch (closedChans r)\<rparr>"
    using assms(2) i t by (simp add: closeChannel_def)
  have "r' = r\<lparr>goroutines := ?pre @ ?post, closedChans := insert ch (closedChans r)\<rparr>"
    by (simp add: r' without_def)
  then show ?thesis
    using consistent_close [OF assms(1) g] by simp
qed

section \<open>The supervision loop\<close>

text \<open>\<open>connectToSSE\<close> only logs and marks members down.\<close>

lemma connectToSSE_state:
  assumes run: "connectToSSE E r = Some y"
  shows "\<exists>d h. snd y = r\<lparr>debug := d, hostsDown := h\<rparr>"
proof (rule connectToSSE.raw_induct
    [where P = "\<lambda>E r y. \<exists>d h. snd y = r\<lparr>debug := d, hostsDown := h\<rparr>", OF _ run], goal_cases)
  case (1 connect E r y)
  have same: "r = r\<lparr>debug := debug r, hostsDown := hostsDown r\<rparr>"
    by simp
  show ?case
  proof (cases "buildAPIRequest E ''GET'' (marathonAPIEventStream E) (hostsDown r)")
    case (Inl err)
    then have "snd y = r"
      using 1(2) by (cases err) auto
    then show ?thesis
      using same by metis
  next
    case (Inr p)
    obtain request member where p: "p = (request, member)"
      by (cases p)
    show ?thesis
    proof (cases "SubscribeWith E request")
      case (Inr stream)
      then have "snd y = r"
        using 1(2) \<open>buildAPIRequest E ''GET'' (marathonAPIEventStream E) (hostsDown r) = Inr p\<close> p
        by auto
      then show ?thesis
        using same by metis
    next
      case (Inl err)
      let ?r1 = "(debugLog (''Error subscribing to Marathon event stream: '' @ error_text err) r)
                   \<lparr>hostsDown := hostsDown r @ [member]\<rparr>"
      have "connect E ?r1 = Some y"
        using 1(2) \<open>buildAPIRequest E ''GET'' (marathonAPIEventStream E) (hostsDown r) = Inr p\<close> p Inl
        by simp
      then obtain d h where "snd y = ?r1\<lparr>debug := d, hostsDown := h\<rparr>"
        using 1(1) by blast
      then have "snd y = r\<lparr>debug := d, hostsDown := h\<rparr>"
        by (simp add: debugLog_def)
      then show ?thesis
        by blast
    qed
  qed
qed

lemma connectToSSE_core:
  assumes "connectToSSE E r = Some y"
  shows "core (snd y) = core r"
proof -
  obtain d h where "snd y = r\<lparr>debug := d, hostsDown := h\<rparr>"
    using connectToSSE_state [OF assms] by blast
  then show ?thesis
    by (simp add: core_def)
qed

lemma consistent_superviseSSE:
  assumes "consistent r" and "superviseSSE E r = Some r'"
  shows "consistent r'"
proof -
  obtain res r1 where c: "connectToSSE E r = Some (res, r1)"
    using assms(2) by (cases "connectToSSE E r") (auto simp: superviseSSE_def)
  have "core r1 = core r"
    using connectToSSE_core [OF c] by simp
  then have c1: "consistent r1"
    using assms(1) consistent_core by blast
  show ?thesis
  proof (cases res)
    case (Panic m)
    then show ?thesis
      using assms(2) c consistent_panic [OF c1] by (auto simp: superviseSSE_def)
  next
    case (Err err)
    let ?r2 = "debugLog (''Error connecting SSE subscription: '' @ error_text err) r1"
    have "core (?r2\<lparr>slept := slept ?r2 + 5\<rparr>) = core r1"
      by (simp add: core_def debugLog_def)
    then have "consistent (?r2\<lparr>slept := slept ?r2 + 5\<rparr>)"
      using c1 consistent_core by blast
    then show ?thesis
      using assms(2) c Err by (auto simp: superviseSSE_def Let_def)
  next
    case (Ok stream)
    obtain x r2 where l: "listenToSSE E stream r1 = (x, r2)"
      by (cases "listenToSSE E stream r1")
    have "consistent r2"
      using consistent_listenToSSE [OF c1, of E stream] by (simp add: l)
    then show ?thesis
      using assms(2) c Ok l by (auto simp: superviseSSE_def consistent_debugLog split: option.splits)
  qed
qed

section \<open>Every run keeps the state consistent\<close>

lemma consistent_fire:
  assumes "consistent r" and "fire a r = Some r'"
  shows "consistent r'"
proof (cases a)
  case (Attach E f)
  obtain x r1 where add: "AddEventsListener E f r = (x, r1)"
    by (cases "AddEventsListener E f r")
  have "consistent r1"
    using consistent_AddEventsListener [OF assms(1), of E f] by (simp add: add)
  then show ?thesis
    using assms(2) Attach add consistent_panic [of r1] by (cases x) auto
next
  case (Detach E ch)
  then show ?thesis
    using assms consistent_RemoveEventsListener by auto
next
  case (Request E w request)
  then show ?thesis
    using assms consistent_handleCallbackEvent by (auto split: if_splits)
next
  case (Supervise E)
  then show ?thesis
    using assms consistent_superviseSSE by (auto split: if_splits)
next
  case (Iteration ev k)
  then have k: "k < length (listeners r)" and r': "r' = dispatch ev (listeners r ! k) r"
    using assms(2) by (simp_all split: if_splits)
  have "listeners r ! k \<in> set (listeners r)"
    using k by (rule nth_mem)
  then show ?thesis
    unfolding r' by (rule consistent_dispatch [OF assms(1)])
next
  case (SelectSend i)
  then show ?thesis using assms consistent_selectSend by auto
next
  case (SelectDone i)
  then show ?thesis using assms consistent_selectDone by auto
next
  case (CompletionDone i)
  then show ?thesis using assms consistent_completionDone by auto
next
  case (CompletionWait i)
  then show ?thesis using assms consistent_completionWait by auto
next
  case (CloseChannel i)
  then show ?thesis using assms consistent_closeChannel by auto
qed

lemma consistent_exec:
  "consistent r \<Longrightarrow> exec as r = Some r' \<Longrightarrow> consistent r'"
proof (induction as arbitrary: r)
  case Nil
  then show ?case by simp
next
  case (Cons a as)
  from Cons.prems(2) obtain r1 where f: "fire a r = Some r1" and e: "exec as r1 = Some r'"
    by (auto split: if_splits option.splits)
  show ?case
    using Cons.IH [OF consistent_fire [OF Cons.prems(1) f] e] .
qed

lemma consistent_newClient: "consistent (newClient cfg)"
  by (simp add: consistent_def consistent_defs newClient_def)

lemmas step_defs = handleCallbackEvent_def handleEvent_def dispatch_def RemoveEventsListener_def
  Unsubscribe_def selectSend_def selectDone_def completionDone_def completionWait_def
  closeChannel_def without_def

section \<open>The supervision loop is started once and stays\<close>

lemma supervisors_update:
  assumes "i < length xs" and "xs ! i \<noteq> SSELoop" and "y \<noteq> SSELoop"
  shows "filter (\<lambda>t. t = SSELoop) (xs[i := y]) = filter (\<lambda>t. t = SSELoop) xs"
proof -
  have "filter (\<lambda>t. t = SSELoop) xs
          = filter (\<lambda>t. t = SSELoop) (take i xs @ xs ! i # drop (Suc i) xs)"
    using nth_split [OF assms(1)] by simp
  then show ?thesis
    using assms by (simp add: update_split)
qed

lemma supervisors_without:
  assumes "i < length xs" and "xs ! i \<noteq> SSELoop"
  shows "filter (\<lambda>t. t = SSELoop) (without i xs) = filter (\<lambda>t. t = SSELoop) xs"
proof -
  have "filter (\<lambda>t. t = SSELoop) xs
          = filter (\<lambda>t. t = SSELoop) (take i xs @ xs ! i # drop (Suc i) xs)"
    using nth_split [OF assms(1)] by simp
  then show ?thesis
    using assms by (simp add: without_def)
qed

lemma sse_registerSubscription:
  "subscribedToSSE r \<Longrightarrow> sse (snd (registerSubscription E r)) = sse r"
  by (simp add: registerSubscription_def registerCallbackSubscription_def registerSSESubscription_def
      registerCallbackURL_def HasSubscription_def Subscriptions_def Subscribe_def spawn_def Let_def
      snd_returned sse_def supervisors_def split: sum.splits prod.splits)

lemma sse_AddEventsListener:
  assumes "subscribedToSSE r"
  shows "sse (snd (AddEventsListener E f r)) = sse r"
proof -
  obtain x r1 where reg: "registerSubscription E r = (x, r1)"
    by (cases "registerSubscription E r")
  have "sse r1 = sse r"
    using sse_registerSubscription [OF assms, of E] by (simp add: reg)
  then show ?thesis
    by (cases x) (simp_all add: AddEventsListener_def reg Let_def sse_def supervisors_def)
qed

lemma sse_RemoveEventsListener: "sse (RemoveEventsListener E ch r) = sse r"
  by (simp add: RemoveEventsListener_def Unsubscribe_def spawn_def Let_def sse_def supervisors_def
      split: option.splits)

lemma sse_dispatch: "sse (dispatch ev l r) = sse r"
  by (simp add: dispatch_def spawn_def sse_def supervisors_def split: prod.splits)

lemma sse_fold_dispatch: "sse (fold (dispatch ev) ls r) = sse r"
  by (induction ls arbitrary: r) (simp_all add: sse_dispatch)

lemma sse_handleEvent: "sse (snd (handleEvent E content r)) = sse r"
  by (simp add: handleEvent_def sse_fold_dispatch split: sum.splits)

lemma sse_debugLog: "sse (debugLog line r) = sse r"
  by (simp add: debugLog_def sse_def supervisors_def)

lemma sse_handleCallbackEvent: "sse (snd (handleCallbackEvent E w request r)) = sse r"
proof (cases request)
  case (Inl err)
  then show ?thesis by (simp add: handleCallbackEvent_def sse_debugLog)
next
  case (Inr body)
  obtain x r1 where h: "handleEvent E body r = (x, r1)"
    by (cases "handleEvent E body r")
  have "sse r1 = sse r"
    using sse_handleEvent [of E body r] by (simp add: h)
  then show ?thesis
    by (simp add: handleCallbackEvent_def Inr h sse_debugLog split: option.splits)
qed

lemma sse_listenToSSE: "sse (snd (listenToSSE E s r)) = sse r"
proof (induction s arbitrary: r)
  case Nil
  show ?case by simp
next
  case (Cons x s)
  show ?case
  proof (cases x)
    case (StreamError err)
    then show ?thesis by simp
  next
    case (EventData d)
    obtain y r1 where h: "handleEvent E d r = (y, r1)"
      by (cases "handleEvent E d r")
    have "sse r1 = sse r"
      using sse_handleEvent [of E d r] by (simp add: h)
    then show ?thesis
      using Cons.IH by (simp add: EventData h sse_debugLog split: option.splits)
  qed
qed

lemma sse_superviseSSE:
  assumes "superviseSSE E r = Some r'"
  shows "sse r' = sse r"
proof -
  obtain res r1 where c: "connectToSSE E r = Some (res, r1)"
    using assms by (cases "connectToSSE E r") (auto simp: superviseSSE_def)
  obtain d h where "r1 = r\<lparr>debug := d, hostsDown := h\<rparr>"
    using connectToSSE_state [OF c] by auto
  then have s1: "sse r1 = sse r"
    by (simp add: sse_def supervisors_def)
  show ?thesis
  proof (cases res)
    case (Panic m)
    then show ?thesis
      using assms c s1 by (auto simp: superviseSSE_def sse_def supervisors_def)
  next
    case (Err err)
    then show ?thesis
      using assms c s1 by (auto simp: superviseSSE_def Let_def debugLog_def sse_def supervisors_def)
  next
    case (Ok stream)
    obtain x r2 where l: "listenToSSE E stream r1 = (x, r2)"
      by (cases "listenToSSE E stream r1")
    have "sse r2 = sse r1"
      using sse_listenToSSE [of E stream r1] by (simp add: l)
    then show ?thesis
      using assms c Ok l s1 by (auto simp: superviseSSE_def sse_debugLog split: option.splits)
  qed
qed

lemma sse_goroutine_steps:
  "selectSend i r = Some r' \<Longrightarrow> sse r' = sse r"
  "selectDone i r = Some r' \<Longrightarrow> sse r' = sse r"
  "completionDone i r = Some r' \<Longrightarrow> sse r' = sse r"
  "completionWait i r = Some r' \<Longrightarrow> sse r' = sse r"
  "closeChannel i r = Some r' \<Longrightarrow> sse r' = sse r"
  by (auto simp: selectSend_def selectDone_def completionDone_def completionWait_def
      closeChannel_def sse_def supervisors_def supervisors_update supervisors_without
      split: if_splits task.splits)

lemma sse_fire:
  assumes "subscribedToSSE r" and "fire a r = Some r'"
  shows "sse r' = sse r"
proof (cases a)
  case (Attach E f)
  obtain x r1 where add: "AddEventsListener E f r = (x, r1)"
    by (cases "AddEventsListener E f r")
  have "sse r1 = sse r"
    using sse_AddEventsListener [OF assms(1), of E f] by (simp add: add)
  then show ?thesis
    using assms(2) Attach add by (cases x) (auto simp: sse_def supervisors_def)
next
  case (Detach E ch)
  then show ?thesis
    using assms sse_RemoveEventsListener by auto
next
  case (Request E w request)
  then show ?thesis
    using assms sse_handleCallbackEvent by (auto split: if_splits)
next
  case (Supervise E)
  then show ?thesis
    using assms sse_superviseSSE by (auto split: if_splits)
next
  case (Iteration ev k)
  then show ?thesis
    using assms by (auto simp: sse_dispatch split: if_splits)
qed (use assms sse_goroutine_steps in auto)

lemma sse_exec:
  "subscribedToSSE r \<Longrightarrow> exec as r = Some r' \<Longrightarrow> sse r' = sse r"
proof (induction as arbitrary: r)
  case Nil
  then show ?case by simp
next
  case (Cons a as)
  from Cons.prems(2) obtain r1 where f: "fire a r = Some r1" and e: "exec as r1 = Some r'"
    by (auto split: if_splits option.splits)
  have s: "sse r1 = sse r"
    using Cons.prems(1) f by (rule sse_fire)
  then have "subscribedToSSE r1"
    using Cons.prems(1) by (simp add: sse_def)
  then have "sse r' = sse r1"
    using e by (rule Cons.IH)
  then show ?case
    using s by simp
qed

lemma reachable_registry:
  assumes "exec as (newClient cfg) = Some r"
  shows "distinct (map fst (listeners r))"
    and "map_of (listeners r) ch = Some ctx \<Longrightarrow> done' ctx = ch \<and> ch \<notin> closedDone r"
proof -
  have c: "registry_ok r"
    using consistent_exec [OF consistent_newClient assms] by (rule consistentD)
  show "distinct (map fst (listeners r))"
    using c by (simp add: registry_ok_def)
  show "done' ctx = ch \<and> ch \<notin> closedDone r" if "map_of (listeners r) ch = Some ctx"
    using registry_okD [OF c map_of_SomeD [OF that]] by simp
qed

lemma length_delete_present:
  "distinct (map fst ls) \<Longrightarrow> k \<in> fst ` set ls \<Longrightarrow> length (AList.delete k ls) = length ls - 1"
proof (induction ls)
  case Nil
  then show ?case by simp
next
  case (Cons x ls)
  show ?case
  proof (cases "fst x = k")
    case True
    then have "k \<notin> fst ` set ls"
      using Cons.prems(1) by auto
    then show ?thesis
      using True by (cases x) auto
  next
    case False
    then have "k \<in> fst ` set ls" and "ls \<noteq> []"
      using Cons.prems(2) by auto
    then show ?thesis
      using Cons.IH Cons.prems(1) False by (cases x) auto
  qed
qed

section \<open>A listener keeps its filter while it is registered\<close>











lemma registry_core: "core r' = core r \<Longrightarrow> listeners r' = listeners r \<and> nextObj r' = nextObj r"
  by (simp add: core_def)







section \<open>Failures of the setup\<close>

lemma HandleFunc_second_registration_panics:
  "fst (registerCallbackSubscription sampleEnv
          ((newClient (sampleConfig 1))\<lparr>handlers := [''/event'']\<rparr>))
     = Panic ''http: multiple registrations for /event''"
  by (simp add: attach_defs sample_defs)

lemma unsupported_transport_error:
  assumes "EventsTransport (config r) \<noteq> EventsTransportCallback E"
    and "EventsTransport (config r) \<noteq> EventsTransportSSE E"
  shows "AddEventsListener E f r =
           (Err (errorString (''the events transport: '' @ fmt_d (EventsTransport (config r))
                   @ '' is not supported'')), r)"
  using assms by (simp add: AddEventsListener_def registerSubscription_def)

lemma returned_failure_adds_nothing:
  assumes "fst (registerSubscription E r) = Err err"
  shows "fst (AddEventsListener E f r) = Err err"
    and "listeners (snd (AddEventsListener E f r)) = listeners r"
proof -
  obtain r1 where reg: "registerSubscription E r = (Err err, r1)"
    using assms by (cases "registerSubscription E r") simp
  then have add: "AddEventsListener E f r = (Err err, r1)"
    by (simp add: AddEventsListener_def)
  show "fst (AddEventsListener E f r) = Err err"
    by (simp add: add)
  show "listeners (snd (AddEventsListener E f r)) = listeners r"
    using registerSubscription_listeners [of E r] by (simp add: add reg)
qed

section \<open>The claims\<close>



text \<open>
  C2. In every state that a run of the process reaches from a new client, through any
  interleaving of attaches, removals, incoming payloads, iterations of the dispatch loop
  and steps of the delivery and finaliser goroutines: a delivery channel that is closed
  has a wait group that counts zero and no delivery left, pending or finishing; every
  delivery that is still to send has its channel open; each wait group counts exactly its
  deliveries in flight; and no goroutine has panicked on a send on a closed channel, on a
  second close, or on a negative counter.
\<close>

theorem channel_closed_after_deliveries:
  assumes "exec as (newClient cfg) = Some r"
  shows "(\<forall>ch \<in> closedChans r.
            wgCount r ch = 0 \<and> (\<forall>t \<in> set (goroutines r). \<not> inflight ch t))
         \<and> (\<forall>ch ctx e. Deliver ch ctx e \<in> set (goroutines r) \<longrightarrow>
               completion ctx = ch \<and> ch \<notin> closedChans r)
         \<and> (\<forall>c. wgCount r c = length (filter (inflight c) (goroutines r)))
         \<and> panicked r \<noteq> Some SendOnClosedChannel
         \<and> panicked r \<noteq> Some CloseOfClosedChannel
         \<and> panicked r \<noteq> Some NegativeWaitGroupCounter"
proof -
  have c: "consistent r"
    using consistent_newClient assms by (rule consistent_exec)
  note d = consistentD [OF c]
  have counted: "\<forall>c. wgCount r c = length (filter (inflight c) (goroutines r))"
    using d(3) by (simp add: counted_def)
  have closed: "wgCount r ch = 0 \<and> (\<forall>t \<in> set (goroutines r). \<not> inflight ch t)"
    if "ch \<in> closedChans r" for ch
  proof -
    have z: "wgCount r ch = 0"
      using d(5) that by (simp add: closed_ok_def)
    then have "filter (inflight ch) (goroutines r) = []"
      using counted by simp
    then show ?thesis
      using z by (simp add: filter_empty_conv)
  qed
  have deliver: "completion ctx = ch \<and> ch \<notin> closedChans r"
    if "Deliver ch ctx e \<in> set (goroutines r)" for ch ctx e
    using tasks_okD [OF d(2) that] delivery_channel_open [OF c that] by simp
  have panic: "panicked r \<noteq> Some SendOnClosedChannel \<and> panicked r \<noteq> Some CloseOfClosedChannel
         \<and> panicked r \<noteq> Some NegativeWaitGroupCounter"
    using d(6) by (auto simp: panic_ok_def)
  show ?thesis
    using counted closed deliver panic by blast
qed

theorem channel_closed_after_deliveries_witness:
  "\<exists>r. exec [Attach sampleEnv 3,
              Request sampleEnv \<lparr>wroteHeader = None, written = []\<rparr> (Inr ''status_update_event''),
              Detach sampleEnv 0, SelectDone 1, CompletionDone 1, CompletionWait 1, CloseChannel 1]
             (newClient (sampleConfig 1)) = Some r
       \<and> closedChans r = {0} \<and> wgCount r 0 = 0 \<and> panicked r = None
       \<and> (\<forall>t \<in> set (goroutines r). \<not> inflight 0 t)"
proof -
  let ?run = "[Attach sampleEnv 3,
              Request sampleEnv \<lparr>wroteHeader = None, written = []\<rparr> (Inr ''status_update_event''),
              Detach sampleEnv 0, SelectDone 1, CompletionDone 1, CompletionWait 1, CloseChannel 1]"
  have "\<exists>r. exec ?run (newClient (sampleConfig 1)) = Some r \<and> closedChans r = {0}
          \<and> panicked r = None"
    by (simp add: step_defs attach_defs sample_defs)
  then obtain r where r: "exec ?run (newClient (sampleConfig 1)) = Some r"
    and c: "closedChans r = {0}" and p: "panicked r = None"
    by blast
  have "wgCount r 0 = 0 \<and> (\<forall>t \<in> set (goroutines r). \<not> inflight 0 t)"
    using channel_closed_after_deliveries [OF r] c by simp
  then show ?thesis
    using r c p by blast
qed

text \<open>
  C3. Under the callback transport, a failure to bind the local listener on the first
  attach should come back from \<open>AddEventsListener\<close> as an error. The code does
  otherwise: when \<open>net.Listen\<close> fails, line 137 returns \<open>nil\<close>, so on a new client
  whose port is taken \<open>AddEventsListener\<close> succeeds and registers the listener, although
  no server loop was started and the callback URL was never registered with Marathon.
\<close>

theorem bind_failure_not_returned:
  "fst (AddEventsListener bindFailsEnv 3 (newClient (sampleConfig 1))) = Ok 0
   \<and> listeners (snd (AddEventsListener bindFailsEnv 3 (newClient (sampleConfig 1))))
       = [(0, \<lparr>filter' = 3, done' = 0, completion = 0\<rparr>)]
   \<and> goroutines (snd (AddEventsListener bindFailsEnv 3 (newClient (sampleConfig 1)))) = []
   \<and> calls (snd (AddEventsListener bindFailsEnv 3 (newClient (sampleConfig 1)))) = []"
  by (simp add: attach_defs sample_defs bindFailsEnv_def)

text \<open>
  C4. With a transport that is neither the callback nor the SSE transport,
  \<open>AddEventsListener\<close> should return an error that names the transport, and no setup
  failure should leave a subscriber in the registry. The first holds: transport 3 is
  refused with its number in the text and the client is unchanged. The second does not
  hold of the code: under the callback transport, when \<open>net.Listen\<close> fails, line 137
  returns \<open>nil\<close>, so the setup has failed (no server runs, nothing was registered with
  Marathon) and yet \<open>registerSubscription\<close> reports success and the subscriber is added to
  the registry, which was empty.
\<close>

theorem setup_failure_adds_subscriber:
  "AddEventsListener sampleEnv 1 (newClient (sampleConfig 3)) =
     (Err (errorString ''the events transport: 3 is not supported''), newClient (sampleConfig 3))
   \<and> net_Listen bindFailsEnv (''10.0.0.1:'' @ fmt_d 10001)
       = Inl (errorString ''bind: address already in use'')
   \<and> fst (registerSubscription bindFailsEnv (newClient (sampleConfig 1))) = Ok ()
   \<and> listeners (newClient (sampleConfig 1)) = []
   \<and> listeners (snd (AddEventsListener bindFailsEnv 5 (newClient (sampleConfig 1))))
       = [(0, \<lparr>filter' = 5, done' = 0, completion = 0\<rparr>)]
   \<and> \<not> list_ex serving (goroutines (snd (AddEventsListener bindFailsEnv 5
                                            (newClient (sampleConfig 1)))))
   \<and> calls (snd (AddEventsListener bindFailsEnv 5 (newClient (sampleConfig 1)))) = []"
proof -
  have "AddEventsListener sampleEnv 1 (newClient (sampleConfig 3)) =
     (Err (errorString ''the events transport: 3 is not supported''), newClient (sampleConfig 3))"
    by (simp add: attach_defs sample_defs fmt_d_3)
  moreover have "net_Listen bindFailsEnv (''10.0.0.1:'' @ fmt_d 10001)
       = Inl (errorString ''bind: address already in use'')"
    by (simp add: bindFailsEnv_def)
  moreover have "fst (registerSubscription bindFailsEnv (newClient (sampleConfig 1))) = Ok ()"
    by (simp add: attach_defs sample_defs bindFailsEnv_def)
  moreover have "listeners (newClient (sampleConfig 1)) = []"
    by (simp add: newClient_def)
  moreover have "listeners (snd (AddEventsListener bindFailsEnv 5 (newClient (sampleConfig 1))))
       = [(0, \<lparr>filter' = 5, done' = 0, completion = 0\<rparr>)]"
    by (simp add: attach_defs sample_defs bindFailsEnv_def)
  moreover have "\<not> list_ex serving (goroutines (snd (AddEventsListener bindFailsEnv 5
                                            (newClient (sampleConfig 1)))))"
    by (simp add: attach_defs sample_defs bindFailsEnv_def)
  moreover have "calls (snd (AddEventsListener bindFailsEnv 5 (newClient (sampleConfig 1)))) = []"
    by (simp add: attach_defs sample_defs bindFailsEnv_def)
  ultimately show ?thesis
    by (intro conjI)
qed

text \<open>
  C5. A payload whose envelope decodes to an event type that \<open>GetEvent\<close> does not know:
  \<open>handleEvent\<close> returns the error built from the type and from the error of \<open>GetEvent\<close>,
  starts no delivery and changes nothing, so that the next payload is handled as if this
  one had not come; \<open>listenToSSE\<close> logs the error and goes on with the rest of the stream.
\<close>

theorem unknown_event_type_dropped:
  assumes "decodeEventType E content = Inr name"
    and "GetEvent E name = Inl e"
  shows "handleEvent E content r =
           (Some (errorString (''unable to handle event, type: '' @ name
                    @ '', error: '' @ error_text e)), r)
         \<and> started r (snd (handleEvent E content r)) = []
         \<and> handleEvent E later (snd (handleEvent E content r)) = handleEvent E later r
         \<and> listenToSSE E (EventData content # rest) r =
             listenToSSE E rest
               (debugLog (''listenToSSE(): failed to handle event: ''
                          @ ''unable to handle event, type: '' @ name
                          @ '', error: '' @ error_text e) r)
         \<and> fst (listenToSSE E (EventData content # rest) r) = fst (listenToSSE E rest r)
         \<and> withoutDebug (snd (listenToSSE E (EventData content # rest) r))
             = withoutDebug (snd (listenToSSE E rest r))"
proof -
  let ?l = "''listenToSSE(): failed to handle event: ''
              @ ''unable to handle event, type: '' @ name @ '', error: '' @ error_text e"
  have h: "handleEvent E content r =
           (Some (errorString (''unable to handle event, type: '' @ name
                    @ '', error: '' @ error_text e)), r)"
    using assms by (simp add: handleEvent_def)
  have l: "listenToSSE E (EventData content # rest) r = listenToSSE E rest (debugLog ?l r)"
    by (simp add: h)
  have d: "debugLog ?l r = r\<lparr>debug := debug r @ [?l]\<rparr>"
    by (simp add: debugLog_def)
  show ?thesis
    using listenToSSE_debug [where E = E and s = rest and r = r and d = "debug r @ [?l]"]
    by (simp only: l h d started_def snd_conv drop_all order_refl simp_thms)
qed

theorem unknown_event_type_dropped_witness:
  "handleEvent sampleEnv ''made_up_event''
       (snd (AddEventsListener sampleEnv 2050 (newClient (sampleConfig 2)))) =
     (Some (errorString (''unable to handle event, type: made_up_event, error: ''
              @ ''the event type: made_up_event was not found or supported'')),
      snd (AddEventsListener sampleEnv 2050 (newClient (sampleConfig 2))))
   \<and> goroutines (snd (listenToSSE sampleEnv [EventData ''made_up_event'', EventData ''deployment_info'']
                        (snd (AddEventsListener sampleEnv 2050 (newClient (sampleConfig 2))))))
     = [SSELoop, Deliver 0 \<lparr>filter' = 2050, done' = 0, completion = 0\<rparr>
                   \<lparr>ID = 2048, Name = ''deployment_info'', Payload = ''deployment_info''\<rparr>]"
proof -
  let ?r = "snd (AddEventsListener sampleEnv 2050 (newClient (sampleConfig 2)))"
  have a: "decodeEventType sampleEnv ''made_up_event'' = Inr ''made_up_event''"
    by (simp add: sampleEnv_def)
  have b: "GetEvent sampleEnv ''made_up_event''
             = Inl (errorString ''the event type: made_up_event was not found or supported'')"
    by (simp add: sampleEnv_def)
  let ?bad = "snd (listenToSSE sampleEnv [EventData ''made_up_event'', EventData ''deployment_info''] ?r)"
  let ?good = "snd (listenToSSE sampleEnv [EventData ''deployment_info''] ?r)"
  note u = unknown_event_type_dropped [OF a b, where r = "?r" and rest = "[EventData ''deployment_info'']"]
  note first = u [THEN conjunct1]
  note last = u [THEN conjunct2, THEN conjunct2, THEN conjunct2, THEN conjunct2, THEN conjunct2]
  have g: "goroutines (withoutDebug x) = goroutines x" for x
    by (simp add: withoutDebug_def)
  have "goroutines ?bad = goroutines (withoutDebug ?bad)"
    by (simp only: g)
  also have "\<dots> = goroutines (withoutDebug ?good)"
    by (simp only: last)
  also have "\<dots> = goroutines ?good"
    by (simp only: g)
  also have "\<dots> = [SSELoop, Deliver 0 \<lparr>filter' = 2050, done' = 0, completion = 0\<rparr>
                   \<lparr>ID = 2048, Name = ''deployment_info'', Payload = ''deployment_info''\<rparr>]"
    by (simp add: handleEvent_def dispatch_def attach_defs sample_defs)
  finally have second: "goroutines ?bad = [SSELoop, Deliver 0 \<lparr>filter' = 2050, done' = 0, completion = 0\<rparr>
                   \<lparr>ID = 2048, Name = ''deployment_info'', Payload = ''deployment_info''\<rparr>]" .
  have "handleEvent sampleEnv ''made_up_event'' ?r =
     (Some (errorString (''unable to handle event, type: made_up_event, error: ''
              @ ''the event type: made_up_event was not found or supported'')), ?r)"
    using first by simp
  then show ?thesis
    using second by (rule conjI)
qed

text \<open>
  C6. In a state that the process has reached under the callback transport, removing a
  registered listener makes exactly one call, the \<open>DELETE\<close> that unregisters the callback
  URL, when it is the only listener of the registry, and no call when another listener
  remains.
\<close>

theorem unsubscribe_only_for_last_listener:
  assumes "exec as (newClient cfg) = Some r"
    and "EventsTransport (config r) = EventsTransportCallback E"
    and "map_of (listeners r) channel = Some ctx"
  shows "calls (RemoveEventsListener E channel r) =
           calls r @ (if length (listeners r) = 1
                      then [ApiDelete (marathonAPISubscription E @ ''?callbackUrl=''
                                        @ SubscriptionURL E r)]
                      else [])"
proof -
  note reg = reachable_registry [OF assms(1)]
  have open': "done' ctx \<notin> closedDone r"
    using reg(2) [OF assms(3)] by simp
  have "channel \<in> fst ` set (listeners r)"
    using map_of_SomeD [OF assms(3)] by force
  then have len: "length (AList.delete channel (listeners r)) = length (listeners r) - 1"
    and pos: "listeners r \<noteq> []"
    using reg(1) by (auto simp: length_delete_present)
  have "AList.delete channel (listeners r) = [] \<longleftrightarrow> length (listeners r) = 1"
    using len pos by (cases "listeners r") auto
  then show ?thesis
    using assms(2)
    by (simp add: RemoveEventsListener_found [OF assms(3) open'] spawn_def Unsubscribe_def
        Let_def SubscriptionURL_def)
qed

theorem unsubscribe_only_for_last_listener_witness:
  "calls (RemoveEventsListener sampleEnv 0
            (snd (AddEventsListener sampleEnv 3 (newClient (sampleConfig 1)))))
     = [ApiGet ''v2/eventSubscriptions'',
        ApiPost ''v2/eventSubscriptions?callbackUrl=http://10.0.0.1:10001/event'',
        ApiDelete ''v2/eventSubscriptions?callbackUrl=http://10.0.0.1:10001/event'']
   \<and> calls (RemoveEventsListener sampleEnv 0
              (snd (AddEventsListener sampleEnv 5
                 (snd (AddEventsListener sampleEnv 3 (newClient (sampleConfig 1)))))))
     = [ApiGet ''v2/eventSubscriptions'',
        ApiPost ''v2/eventSubscriptions?callbackUrl=http://10.0.0.1:10001/event'',
        ApiGet ''v2/eventSubscriptions'',
        ApiPost ''v2/eventSubscriptions?callbackUrl=http://10.0.0.1:10001/event'']"
proof -
  let ?c = "\<lparr>filter' = 3, done' = 0, completion = 0\<rparr> :: EventsChannelContext"
  let ?r0 = "newClient (sampleConfig 1)"
  let ?r1 = "snd (AddEventsListener sampleEnv 3 ?r0)"
  let ?r2 = "snd (AddEventsListener sampleEnv 5 ?r1)"
  have e1: "exec [Attach sampleEnv 3] ?r0 = Some ?r1"
    by (simp add: attach_defs sample_defs)
  have e2: "exec [Attach sampleEnv 3, Attach sampleEnv 5] ?r0 = Some ?r2"
    by (simp add: attach_defs sample_defs)
  have t1: "EventsTransport (config ?r1) = EventsTransportCallback sampleEnv"
    by (simp add: attach_defs sample_defs)
  have l1: "listeners ?r1 = [(0, ?c)]"
    by (simp add: attach_defs sample_defs)
  have c1: "calls ?r1 = [ApiGet ''v2/eventSubscriptions'',
        ApiPost ''v2/eventSubscriptions?callbackUrl=http://10.0.0.1:10001/event'']"
    by (simp add: attach_defs sample_defs)
  have u1: "SubscriptionURL sampleEnv ?r1 = ''http://10.0.0.1:10001/event''"
    by (simp add: attach_defs sample_defs)
  have t2: "EventsTransport (config ?r2) = EventsTransportCallback sampleEnv"
    by (simp add: attach_defs sample_defs)
  have l2: "listeners ?r2 = [(0, ?c), (1, \<lparr>filter' = 5, done' = 1, completion = 1\<rparr>)]"
    by (simp add: attach_defs sample_defs)
  have c2: "calls ?r2 = [ApiGet ''v2/eventSubscriptions'',
        ApiPost ''v2/eventSubscriptions?callbackUrl=http://10.0.0.1:10001/event'',
        ApiGet ''v2/eventSubscriptions'',
        ApiPost ''v2/eventSubscriptions?callbackUrl=http://10.0.0.1:10001/event'']"
    by (simp add: attach_defs sample_defs)
  have m1: "map_of (listeners ?r1) 0 = Some ?c"
    by (simp add: l1)
  have m2: "map_of (listeners ?r2) 0 = Some ?c"
    by (simp add: l2)
  have e: "marathonAPISubscription sampleEnv = ''v2/eventSubscriptions''"
    by (simp add: sampleEnv_def)
  show ?thesis
    using unsubscribe_only_for_last_listener [OF e1 t1 m1]
      unsubscribe_only_for_last_listener [OF e2 t2 m2]
    by (simp add: l1 l2 c1 c2 u1 e)
qed

text \<open>
  C7. \<open>handleCallbackEvent\<close> has no test for an empty body: every body that was read,
  empty or not, goes to \<open>handleEvent\<close>, which starts by decoding it. The handler writes
  nothing to the response, whose status therefore stays the default 200, and does not
  panic, whatever \<open>handleEvent\<close> returns; an error of \<open>handleEvent\<close> only adds a line to
  the log. For an empty body that the decoder rejects, that line reports the failed
  decoding, and no delivery is started.
\<close>

theorem callback_hands_body_to_handleEvent:
  "fst (handleCallbackEvent E w (Inr body) r) = w
   \<and> (wroteHeader w = None \<longrightarrow> statusCode (fst (handleCallbackEvent E w (Inr body) r)) = 200)
   \<and> panicked (snd (handleCallbackEvent E w (Inr body) r)) = panicked r
   \<and> withoutDebug (snd (handleCallbackEvent E w (Inr body) r))
        = withoutDebug (snd (handleEvent E body r))
   \<and> (decodeEventType E [] = Inl e \<longrightarrow>
        handleCallbackEvent E w (Inr []) r =
          (w, debugLog (''handleCallbackEvent(): failed to handle event: ''
                         @ ''failed to decode the event type, content: , error: '' @ error_text e) r))"
proof -
  obtain x r1 where h: "handleEvent E body r = (x, r1)"
    by (cases "handleEvent E body r")
  have p: "panicked r1 = panicked r"
    using panicked_handleEvent [of E body r] by (simp add: h)
  have c: "handleCallbackEvent E w (Inr body) r =
             (w, case x of None \<Rightarrow> r1
                 | Some err \<Rightarrow> debugLog (''handleCallbackEvent(): failed to handle event: ''
                                          @ error_text err) r1)"
    by (simp add: handleCallbackEvent_def h split: option.splits)
  have "decodeEventType E [] = Inl e \<Longrightarrow>
        handleCallbackEvent E w (Inr []) r =
          (w, debugLog (''handleCallbackEvent(): failed to handle event: ''
                         @ ''failed to decode the event type, content: , error: '' @ error_text e) r)"
    by (simp add: handleCallbackEvent_def handleEvent_def)
  then show ?thesis
    by (simp add: c h p statusCode_def debugLog_def withoutDebug_def split: option.splits)
qed

theorem callback_hands_body_to_handleEvent_witness:
  "handleCallbackEvent sampleEnv \<lparr>wroteHeader = None, written = []\<rparr> (Inr [])
       (snd (AddEventsListener sampleEnv 3 (newClient (sampleConfig 1))))
     = (\<lparr>wroteHeader = None, written = []\<rparr>,
        debugLog (''handleCallbackEvent(): failed to handle event: ''
                  @ ''failed to decode the event type, content: , error: EOF'')
          (snd (AddEventsListener sampleEnv 3 (newClient (sampleConfig 1)))))
   \<and> statusCode (fst (handleCallbackEvent sampleEnv \<lparr>wroteHeader = None, written = []\<rparr> (Inr [])
       (snd (AddEventsListener sampleEnv 3 (newClient (sampleConfig 1)))))) = 200"
proof -
  let ?w = "\<lparr>wroteHeader = None, written = []\<rparr>"
  let ?r = "snd (AddEventsListener sampleEnv 3 (newClient (sampleConfig 1)))"
  have a: "decodeEventType sampleEnv [] = Inl (errorString ''EOF'')"
    by (simp add: sampleEnv_def)
  have b: "wroteHeader ?w = None"
    by simp
  note u = callback_hands_body_to_handleEvent [where E = sampleEnv and w = "?w" and body = "[]"
      and r = "?r" and e = "errorString ''EOF''"]
  show ?thesis
    using u a b by (simp add: statusCode_def)
qed

text \<open>
  The claim of C7 that an empty body is not decoded fails: on an empty body the handler
  logs the failure of the decoder to read an event type from it.
\<close>

theorem empty_body_is_decoded:
  "debug (snd (handleCallbackEvent sampleEnv \<lparr>wroteHeader = None, written = []\<rparr> (Inr [])
                (newClient (sampleConfig 1))))
     = [''handleCallbackEvent(): failed to handle event: failed to decode the event type, content: , error: EOF'']
   \<and> snd (handleCallbackEvent sampleEnv \<lparr>wroteHeader = None, written = []\<rparr> (Inr [])
                (newClient (sampleConfig 1))) \<noteq> newClient (sampleConfig 1)"
proof -
  have "debug (snd (handleCallbackEvent sampleEnv \<lparr>wroteHeader = None, written = []\<rparr> (Inr [])
                (newClient (sampleConfig 1))))
     = [''handleCallbackEvent(): failed to handle event: failed to decode the event type, content: , error: EOF'']"
    by (simp add: handleCallbackEvent_def handleEvent_def debugLog_def sample_defs)
  moreover have "debug (newClient (sampleConfig 1)) = []"
    by (simp add: newClient_def)
  ultimately show ?thesis
    by auto
qed

text \<open>
  C8. In \<open>connectToSSE\<close>, a request that cannot be built for the reason
  \<open>newRequestError\<close> makes the function panic, and the supervision loop stops with it
  instead of trying again; any other failure to build the request is returned as the
  error, after which the supervision loop waits five seconds; a failed subscription to the
  stream marks the member down and starts the loop of \<open>connectToSSE\<close> again at once,
  with no wait.
\<close>

theorem connect_failure_cases:
  "(buildAPIRequest E ''GET'' (marathonAPIEventStream E) (hostsDown r) = Inl (newRequestError m) \<longrightarrow>
      connectToSSE E r =
        Some (Panic (''Requests for SSE subscriptions should never fail to be created: '' @ m), r)
      \<and> superviseSSE E r =
        Some (r\<lparr>panicked := Some (Explicit
                (''Requests for SSE subscriptions should never fail to be created: '' @ m))\<rparr>))
   \<and> (buildAPIRequest E ''GET'' (marathonAPIEventStream E) (hostsDown r) = Inl (errorString m) \<longrightarrow>
      connectToSSE E r = Some (Err (errorString m), r)
      \<and> superviseSSE E r =
        Some ((debugLog (''Error connecting SSE subscription: '' @ m) r)\<lparr>slept := slept r + 5\<rparr>))
   \<and> (buildAPIRequest E ''GET'' (marathonAPIEventStream E) (hostsDown r) = Inr (request, member)
        \<and> SubscribeWith E request = Inl err \<longrightarrow>
      connectToSSE E r =
        connectToSSE E
          ((debugLog (''Error subscribing to Marathon event stream: '' @ error_text err) r)
             \<lparr>hostsDown := hostsDown r @ [member]\<rparr>)
      \<and> slept ((debugLog (''Error subscribing to Marathon event stream: '' @ error_text err) r)
             \<lparr>hostsDown := hostsDown r @ [member]\<rparr>) = slept r)"
proof (intro conjI impI)
  assume a: "buildAPIRequest E ''GET'' (marathonAPIEventStream E) (hostsDown r) = Inl (newRequestError m)"
  show c: "connectToSSE E r =
        Some (Panic (''Requests for SSE subscriptions should never fail to be created: '' @ m), r)"
    by (subst connectToSSE.simps) (simp add: a)
  show "superviseSSE E r =
        Some (r\<lparr>panicked := Some (Explicit
                (''Requests for SSE subscriptions should never fail to be created: '' @ m))\<rparr>)"
    by (simp add: superviseSSE_def c)
next
  assume a: "buildAPIRequest E ''GET'' (marathonAPIEventStream E) (hostsDown r) = Inl (errorString m)"
  show c: "connectToSSE E r = Some (Err (errorString m), r)"
    by (subst connectToSSE.simps) (simp add: a)
  show "superviseSSE E r =
        Some ((debugLog (''Error connecting SSE subscription: '' @ m) r)\<lparr>slept := slept r + 5\<rparr>)"
    by (simp add: superviseSSE_def c debugLog_def)
next
  assume a: "buildAPIRequest E ''GET'' (marathonAPIEventStream E) (hostsDown r) = Inr (request, member)
        \<and> SubscribeWith E request = Inl err"
  show "connectToSSE E r =
        connectToSSE E
          ((debugLog (''Error subscribing to Marathon event stream: '' @ error_text err) r)
             \<lparr>hostsDown := hostsDown r @ [member]\<rparr>)"
    by (subst connectToSSE.simps) (simp add: a)
  show "slept ((debugLog (''Error subscribing to Marathon event stream: '' @ error_text err) r)
             \<lparr>hostsDown := hostsDown r @ [member]\<rparr>) = slept r"
    by (simp add: debugLog_def)
qed

theorem connect_failure_cases_witness:
  "connectToSSE brokenRequestEnv (newClient (sampleConfig 2)) =
     Some (Panic ''Requests for SSE subscriptions should never fail to be created: missing protocol scheme'',
           newClient (sampleConfig 2))
   \<and> superviseSSE sampleEnv ((newClient (sampleConfig 2))\<lparr>hostsDown := [''m1'', ''m2'']\<rparr>) =
       Some ((newClient (sampleConfig 2))
               \<lparr>hostsDown := [''m1'', ''m2''],
                debug := [''Error connecting SSE subscription: all the Marathon hosts are presently down''],
                slept := 5\<rparr>)
   \<and> connectToSSE sampleEnv (newClient (sampleConfig 2)) =
       connectToSSE sampleEnv
         ((newClient (sampleConfig 2))
            \<lparr>debug := [''Error subscribing to Marathon event stream: connection refused''],
             hostsDown := [''m1'']\<rparr>)"
proof -
  let ?r = "newClient (sampleConfig 2)"
  let ?d = "?r\<lparr>hostsDown := [''m1'', ''m2'']\<rparr>"
  have a: "buildAPIRequest brokenRequestEnv ''GET'' (marathonAPIEventStream brokenRequestEnv)
             (hostsDown ?r) = Inl (newRequestError ''missing protocol scheme'')"
    by (simp add: brokenRequestEnv_def)
  have b: "buildAPIRequest sampleEnv ''GET'' (marathonAPIEventStream sampleEnv) (hostsDown ?d)
             = Inl (errorString ''all the Marathon hosts are presently down'')"
    by (simp add: sample_defs)
  have c: "buildAPIRequest sampleEnv ''GET'' (marathonAPIEventStream sampleEnv) (hostsDown ?r)
             = Inr (''m1/v2/events'', ''m1'')
           \<and> SubscribeWith sampleEnv ''m1/v2/events'' = Inl (errorString ''connection refused'')"
    by (simp add: sample_defs)
  note u1 = connect_failure_cases [where E = brokenRequestEnv and r = "?r"
      and m = "''missing protocol scheme''", THEN conjunct1, rule_format, OF a, THEN conjunct1]
  note u2 = connect_failure_cases [where E = sampleEnv and r = "?d"
      and m = "''all the Marathon hosts are presently down''",
      THEN conjunct2, THEN conjunct1, rule_format, OF b, THEN conjunct2]
  note u3 = connect_failure_cases [where E = sampleEnv and r = "?r" and request = "''m1/v2/events''"
      and member = "''m1''" and err = "errorString ''connection refused''",
      THEN conjunct2, THEN conjunct2, rule_format, OF c, THEN conjunct1]
  have "connectToSSE brokenRequestEnv ?r =
     Some (Panic ''Requests for SSE subscriptions should never fail to be created: missing protocol scheme'', ?r)"
    using u1 by simp
  moreover have "superviseSSE sampleEnv ?d =
       Some (?r\<lparr>hostsDown := [''m1'', ''m2''],
                debug := [''Error connecting SSE subscription: all the Marathon hosts are presently down''],
                slept := 5\<rparr>)"
    using u2 by (simp add: debugLog_def newClient_def)
  moreover have "connectToSSE sampleEnv ?r =
       connectToSSE sampleEnv
         (?r\<lparr>debug := [''Error subscribing to Marathon event stream: connection refused''],
             hostsDown := [''m1'']\<rparr>)"
    using u3 by (simp add: debugLog_def newClient_def)
  ultimately show ?thesis
    by (intro conjI)
qed

text \<open>
  C9. \<open>registerSSESubscription\<close> always succeeds and leaves the flag set; on a client whose
  flag is set it changes nothing, so it starts no second supervision loop; and from then
  on, whatever the process does (attaches, removals, payloads, goroutine steps), the flag
  stays set and the number of supervision loops stays the same.
\<close>

theorem sse_supervision_started_once:
  "fst (registerSSESubscription r) = None
   \<and> subscribedToSSE (snd (registerSSESubscription r))
   \<and> supervisors (snd (registerSSESubscription r))
        = (if subscribedToSSE r then supervisors r else Suc (supervisors r))
   \<and> registerSSESubscription (snd (registerSSESubscription r))
        = (None, snd (registerSSESubscription r))
   \<and> (subscribedToSSE r \<and> exec as r = Some r' \<longrightarrow>
        subscribedToSSE r' \<and> supervisors r' = supervisors r)"
proof -
  have "subscribedToSSE r' \<and> supervisors r' = supervisors r"
    if "subscribedToSSE r \<and> exec as r = Some r'"
    using sse_exec [of r as r'] that by (simp add: sse_def)
  then show ?thesis
    by (simp add: registerSSESubscription_def spawn_def supervisors_def)
qed

theorem sse_supervision_started_once_witness:
  "\<exists>r'. exec [Attach sampleEnv 5, Detach sampleEnv 0, CompletionWait 1, CloseChannel 1,
               Attach sampleEnv 7]
          (snd (AddEventsListener sampleEnv 3 (newClient (sampleConfig 2)))) = Some r'
        \<and> subscribedToSSE r' \<and> supervisors r' = 1 \<and> listeners r' \<noteq> []"
proof -
  let ?r = "snd (AddEventsListener sampleEnv 3 (newClient (sampleConfig 2)))"
  let ?run = "[Attach sampleEnv 5, Detach sampleEnv 0, CompletionWait 1, CloseChannel 1,
               Attach sampleEnv 7]"
  have s: "subscribedToSSE ?r" and n: "supervisors ?r = 1"
    by (simp_all add: attach_defs sample_defs supervisors_def)
  have "\<exists>r'. exec ?run ?r = Some r' \<and> listeners r' \<noteq> []"
    by (simp add: step_defs attach_defs sample_defs)
  then obtain r' where e: "exec ?run ?r = Some r'" and l: "listeners r' \<noteq> []"
    by blast
  note u = sse_supervision_started_once [where r = "?r" and as = "?run" and r' = r']
  have "subscribedToSSE r' \<and> supervisors r' = supervisors ?r"
    using u s e by blast
  then show ?thesis
    using e l n by auto
qed

text \<open>
  C10. \<open>RemoveEventsListener\<close> on a channel that is not in the registry changes nothing:
  no listener is removed, no \<open>done\<close> and no channel is closed, no call is made and no
  goroutine is started. In a state that the process has reached, a removal leaves the
  channel out of the registry and does not panic, so a second removal of the same channel
  is such a call: it changes nothing and closes \<open>done\<close> no second time.
\<close>

theorem remove_unknown_channel_noop:
  "(map_of (listeners r) channel = None \<longrightarrow> RemoveEventsListener E channel r = r)
   \<and> (exec as (newClient cfg) = Some r \<longrightarrow>
        map_of (listeners (RemoveEventsListener E channel r)) channel = None
        \<and> panicked (RemoveEventsListener E channel r) = panicked r
        \<and> RemoveEventsListener E' channel (RemoveEventsListener E channel r)
            = RemoveEventsListener E channel r)"
proof (intro conjI impI)
  show "RemoveEventsListener E channel r = r" if "map_of (listeners r) channel = None"
    using that by (simp add: RemoveEventsListener_def)
next
  assume run: "exec as (newClient cfg) = Some r"
  show gone: "map_of (listeners (RemoveEventsListener E channel r)) channel = None"
  proof (cases "map_of (listeners r) channel")
    case None
    then show ?thesis by (simp add: RemoveEventsListener_def)
  next
    case (Some ctx)
    have "done' ctx \<notin> closedDone r"
      using reachable_registry(2) [OF run Some] by simp
    then have "listeners (RemoveEventsListener E channel r) = AList.delete channel (listeners r)"
      using Some by (simp add: RemoveEventsListener_found spawn_def Unsubscribe_def Let_def)
    then show ?thesis
      by (simp add: delete_conv')
  qed
  show "panicked (RemoveEventsListener E channel r) = panicked r"
  proof (cases "map_of (listeners r) channel")
    case None
    then show ?thesis by (simp add: RemoveEventsListener_def)
  next
    case (Some ctx)
    have "done' ctx \<notin> closedDone r"
      using reachable_registry(2) [OF run Some] by simp
    then show ?thesis
      using Some by (simp add: RemoveEventsListener_found spawn_def Unsubscribe_def Let_def)
  qed
  show "RemoveEventsListener E' channel (RemoveEventsListener E channel r)
          = RemoveEventsListener E channel r"
    using gone by (simp add: RemoveEventsListener_def)
qed

theorem remove_unknown_channel_noop_witness:
  "RemoveEventsListener sampleEnv 7 (newClient (sampleConfig 1)) = newClient (sampleConfig 1)
   \<and> map_of (listeners (snd (AddEventsListener sampleEnv 3 (newClient (sampleConfig 2))))) 0
        = Some \<lparr>filter' = 3, done' = 0, completion = 0\<rparr>
   \<and> map_of (listeners (RemoveEventsListener sampleEnv 0
          (snd (AddEventsListener sampleEnv 3 (newClient (sampleConfig 2)))))) 0 = None
   \<and> RemoveEventsListener sampleEnv 0
        (RemoveEventsListener sampleEnv 0
           (snd (AddEventsListener sampleEnv 3 (newClient (sampleConfig 2)))))
      = RemoveEventsListener sampleEnv 0
          (snd (AddEventsListener sampleEnv 3 (newClient (sampleConfig 2))))"
proof -
  let ?r = "snd (AddEventsListener sampleEnv 3 (newClient (sampleConfig 2)))"
  have a: "map_of (listeners (newClient (sampleConfig 1))) 7 = None"
    by (simp add: newClient_def)
  have b: "exec [Attach sampleEnv 3] (newClient (sampleConfig 2)) = Some ?r"
    by (simp add: attach_defs sample_defs)
  have c: "map_of (listeners ?r) 0 = Some \<lparr>filter' = 3, done' = 0, completion = 0\<rparr>"
    by (simp add: attach_defs sample_defs)
  note first = remove_unknown_channel_noop [where r = "newClient (sampleConfig 1)"
      and channel = "7" and E = "sampleEnv"]
  note second = remove_unknown_channel_noop [where r = "?r" and channel = "0"
      and as = "[Attach sampleEnv 3]" and cfg = "sampleConfig 2"
      and E = "sampleEnv" and E' = "sampleEnv"]
  show ?thesis
    using first second a b c by simp
qed

end
